theory Spec2Isabelle
  imports Complex_Main
begin

section \<open>JavaScript numbers\<close>

text \<open>
  A JavaScript number is an IEEE 754 double. A finite double is modelled by the rational
  number it denotes, and the result of an arithmetic operation is the exact result
  rounded to the nearest double, ties to even, or an infinity on overflow
  (\<open>toDouble\<close>). Rounded this way are the quotient \<open>usdValue / draw.minAmount\<close>,
  the parsed price, every sum, difference and product of entry counts and of wins, and
  the random index. Sums and products of USD amounts (\<open>totalDonated += usdValue\<close>,
  \<open>price * amount\<close>) are kept exact, and so is the arithmetic of timestamps and
  streak lengths, which are integers far below \<open>2 ^ 53\<close>. Every comparison is exact,
  as in the language.
\<close>

text \<open>The power \<open>2 ^ k\<close> for an integer \<open>k\<close>.\<close>

definition pow2 :: "int \<Rightarrow> rat" where
  "pow2 k = (if 0 \<le> k then 2 ^ nat k else 1 / 2 ^ nat (- k))"

text \<open>The number of binary digits of a natural number.\<close>

fun bitLength :: "nat \<Rightarrow> nat" where
  "bitLength n = (if n = 0 then 0 else Suc (bitLength (n div 2)))"

declare bitLength.simps [simp del]

text \<open>
  The binary exponent of a positive rational \<open>x\<close>: the integer \<open>e\<close> with
  \<open>2 ^ e \<le> x < 2 ^ (e + 1)\<close> (lemmas \<open>binaryExponent_le\<close> and
  \<open>binaryExponent_gt\<close>).
\<close>

definition binaryExponent :: "rat \<Rightarrow> int" where
  "binaryExponent x =
     (if 1 \<le> x then int (bitLength (nat \<lfloor>x\<rfloor>)) - 1
      else - int (bitLength (nat (\<lceil>1 / x\<rceil> - 1))))"

text \<open>The nearest integer, a tie going to the even one.\<close>

definition roundHalfEven :: "rat \<Rightarrow> int" where
  "roundHalfEven x =
     (let f = \<lfloor>x\<rfloor>; r = x - of_int f
      in if r < 1 / 2 then f else if 1 / 2 < r then f + 1 else if even f then f else f + 1)"

text \<open>
  The value of an arithmetic operation whose operands are finite and whose result is
  defined: a finite double or an infinity. (\<open>-0\<close> is not told from \<open>0\<close>: no
  test of the code tells them apart.)
\<close>

datatype jsdouble = Dbl rat | PosInfinity | NegInfinity

text \<open>
  Rounding of a positive rational to binary64: 53 significant bits, so the spacing of the
  doubles around \<open>x\<close> is \<open>2 ^ (e - 52)\<close>; the exponent of a normal number is
  at least \<open>-1022\<close> (below, the spacing stays \<open>2 ^ -1074\<close>); the result is
  \<open>+Infinity\<close> when the rounded value reaches \<open>2 ^ 1024\<close>.
\<close>

definition roundPositive :: "rat \<Rightarrow> jsdouble" where
  "roundPositive x =
     (let e = max (binaryExponent x) (- 1022);
          ulp = pow2 (e - 52);
          r = of_int (roundHalfEven (x / ulp)) * ulp
      in if pow2 1024 \<le> r then PosInfinity else Dbl r)"

definition toDouble :: "rat \<Rightarrow> jsdouble" where
  "toDouble x =
     (if x = 0 then Dbl 0
      else if 0 < x then roundPositive x
      else (case roundPositive (- x) of Dbl r \<Rightarrow> Dbl (- r) | _ \<Rightarrow> NegInfinity))"

text \<open>The rationals that are doubles: rounding leaves them as they are.\<close>

definition isDouble :: "rat \<Rightarrow> bool" where
  "isDouble x = (toDouble x = Dbl x)"

subsection \<open>Facts about rounding\<close>

lemma floor_rat_numeral: "\<lfloor>numeral a / numeral b :: rat\<rfloor> = numeral a div numeral b"
  using floor_divide_of_int_eq [of "numeral a" "numeral b", where ?'a = rat] by simp

lemma ceiling_rat_numeral: "\<lceil>numeral a / numeral b :: rat\<rceil> = - (- numeral a div numeral b)"
  using ceiling_divide_eq_div [of "numeral a" "numeral b"] 
  by (metis ceiling_def floor_divide_of_int_eq minus_divide_left of_int_minus of_int_numeral)

lemmas double_eval = toDouble_def roundPositive_def binaryExponent_def bitLength.simps pow2_def
  roundHalfEven_def Let_def floor_rat_numeral ceiling_rat_numeral

lemma pow2_powi: "pow2 k = 2 powi k"
  by (simp add: pow2_def power_int_def inverse_eq_divide power_one_over)

lemma pow2_pos: "0 < pow2 k"
  by (simp add: pow2_def)

lemma pow2_add: "pow2 (a + b) = pow2 a * pow2 b"
  by (simp add: pow2_powi power_int_add)

lemma pow2_mono: "a \<le> b \<Longrightarrow> pow2 a \<le> pow2 b"
  by (simp add: pow2_powi power_int_increasing)

lemma pow2_nat: "pow2 (int n) = 2 ^ n"
  by (simp add: pow2_def)

lemma bitLength_upper: "n < 2 ^ bitLength n"
proof (induction n rule: bitLength.induct)
  case (1 n)
  show ?case
  proof (cases "n = 0")
    case True
    then show ?thesis by (simp add: bitLength.simps)
  next
    case False
    with 1 have "n div 2 < 2 ^ bitLength (n div 2)" by simp
    then have "n < 2 * 2 ^ bitLength (n div 2)" by linarith
    with False show ?thesis by (simp add: bitLength.simps [of n])
  qed
qed

lemma bitLength_lower: "0 < n \<Longrightarrow> 2 ^ (bitLength n - 1) \<le> n"
proof (induction n rule: bitLength.induct)
  case (1 n)
  from 1(2) have n: "n \<noteq> 0" by simp
  show ?case
  proof (cases "n div 2 = 0")
    case True
    with n show ?thesis by (simp add: bitLength.simps [of n] bitLength.simps [of 0])
  next
    case False
    with 1(1) [OF n] have ih: "2 ^ (bitLength (n div 2) - 1) \<le> n div 2" by simp
    from False have "0 < bitLength (n div 2)" by (simp add: bitLength.simps [of "n div 2"])
    then have "(2::nat) ^ bitLength (n div 2) = 2 * 2 ^ (bitLength (n div 2) - 1)"
      by (cases "bitLength (n div 2)") simp_all
    with ih have "2 ^ bitLength (n div 2) \<le> n" by linarith
    with n show ?thesis by (simp add: bitLength.simps [of n])
  qed
qed

lemma bitLength_pos: "0 < n \<Longrightarrow> 0 < bitLength n"
  by (simp add: bitLength.simps [of n])

lemma pow2_neg_nat: "pow2 (- int m) = 1 / 2 ^ m"
  by (simp add: pow2_powi power_int_minus inverse_eq_divide)

lemma binaryExponent_le:
  assumes "0 < x"
  shows "pow2 (binaryExponent x) \<le> x"
proof (cases "1 \<le> x")
  case True
  define n where "n = nat \<lfloor>x\<rfloor>"
  from True have n: "0 < n" by (simp add: n_def)
  from bitLength_pos [OF n] have e: "int (bitLength n) - 1 = int (bitLength n - 1)" by simp
  have "pow2 (binaryExponent x) = 2 ^ (bitLength n - 1)"
    using True by (simp add: binaryExponent_def n_def [symmetric] e pow2_nat del: of_nat_diff)
  also have "\<dots> = of_nat (2 ^ (bitLength n - 1))" by simp
  also have "\<dots> \<le> of_nat n" using bitLength_lower [OF n] by (simp only: of_nat_le_iff)
  also have "\<dots> = of_int \<lfloor>x\<rfloor>" using True by (simp add: n_def)
  also have "\<dots> \<le> x" by simp
  finally show ?thesis .
next
  case False
  with assms have x: "0 < x" "x < 1" by simp_all
  define c where "c = \<lceil>1 / x\<rceil>"
  define k where "k = bitLength (nat (c - 1))"
  have "1 < 1 / x" using x by simp
  then have c2: "2 \<le> c" unfolding c_def by (simp add: le_ceiling_iff)
  have "nat (c - 1) < 2 ^ k" unfolding k_def by (rule bitLength_upper)
  then have "c - 1 < 2 ^ k" using c2 by (simp add: nat_less_iff)
  then have "c \<le> 2 ^ k" by simp
  then have "(of_int c :: rat) \<le> 2 ^ k" by (metis of_int_le_iff of_int_numeral of_int_power)
  moreover have "1 / x \<le> of_int c" unfolding c_def by simp
  ultimately have "1 / x \<le> 2 ^ k" by (rule order_trans [rotated])
  then have "1 / 2 ^ k \<le> x" using x by (simp add: field_simps)
  moreover have "pow2 (binaryExponent x) = 1 / 2 ^ k"
    using False by (simp add: binaryExponent_def c_def [symmetric] k_def [symmetric] pow2_neg_nat)
  ultimately show ?thesis by simp
qed

lemma binaryExponent_gt:
  assumes "0 < x"
  shows "x < pow2 (binaryExponent x + 1)"
proof (cases "1 \<le> x")
  case True
  define n where "n = nat \<lfloor>x\<rfloor>"
  from True have n: "0 < n" by (simp add: n_def)
  have "pow2 (binaryExponent x + 1) = 2 ^ bitLength n"
    using True by (simp add: binaryExponent_def n_def [symmetric] pow2_nat)
  moreover have "\<lfloor>x\<rfloor> < 2 ^ bitLength n"
    using bitLength_upper [of n] True by (simp add: n_def nat_less_iff)
  then have "x < 2 ^ bitLength n" by (simp add: floor_less_iff)
  ultimately show ?thesis by simp
next
  case False
  with assms have x: "0 < x" "x < 1" by simp_all
  define c where "c = \<lceil>1 / x\<rceil>"
  define k where "k = bitLength (nat (c - 1))"
  have "1 < 1 / x" using x by simp
  then have c2: "2 \<le> c" unfolding c_def by (simp add: le_ceiling_iff)
  then have m: "0 < nat (c - 1)" by simp
  from bitLength_pos [OF m] have kpos: "0 < k" by (simp add: k_def)
  have "2 ^ (k - 1) \<le> nat (c - 1)" unfolding k_def by (rule bitLength_lower [OF m])
  then have "2 ^ (k - 1) \<le> c - 1" using c2 by (simp add: le_nat_iff)
  then have "(2::rat) ^ (k - 1) \<le> of_int (c - 1)"
    by (metis of_int_le_iff of_int_numeral of_int_power)
  moreover have "of_int (c - 1) < 1 / x" unfolding c_def
    by (metis ceiling_correct of_int_diff of_int_1)
  ultimately have "2 ^ (k - 1) < 1 / x" by simp
  then have "x < 1 / 2 ^ (k - 1)" using x by (simp add: field_simps)
  moreover have "pow2 (binaryExponent x + 1) = 1 / 2 ^ (k - 1)"
  proof -
    have "binaryExponent x + 1 = - int (k - 1)"
      using False kpos by (simp add: binaryExponent_def c_def [symmetric] k_def [symmetric])
    then show ?thesis by (simp only: pow2_neg_nat)
  qed
  ultimately show ?thesis by simp
qed

lemma binaryExponent_nonneg: "1 \<le> x \<Longrightarrow> 0 \<le> binaryExponent x"
  using bitLength_pos [of "nat \<lfloor>x\<rfloor>"] by (simp add: binaryExponent_def)

lemma roundHalfEven_upper: "of_int (roundHalfEven x) \<le> x + 1 / 2"
  unfolding roundHalfEven_def Let_def by (auto simp: not_less) linarith+

lemma roundHalfEven_lower: "x - 1 / 2 \<le> of_int (roundHalfEven x)"
  unfolding roundHalfEven_def Let_def by (auto simp: not_less) linarith+

lemma roundHalfEven_ge: "of_int k \<le> x \<Longrightarrow> k \<le> roundHalfEven x"
  unfolding roundHalfEven_def Let_def by (auto simp: le_floor_iff) linarith+

lemma roundHalfEven_of_int: "roundHalfEven (of_int k) = k"
  by (simp add: roundHalfEven_def)

lemma roundHalfEven_nonneg: "0 \<le> x \<Longrightarrow> 0 \<le> roundHalfEven x"
  using roundHalfEven_ge [of 0 x] by simp

lemma roundPositive_error:
  assumes "0 < x" "roundPositive x = Dbl r"
  shows "\<bar>r - x\<bar> \<le> pow2 (max (binaryExponent x) (- 1022) - 52) / 2"
proof -
  define ulp where "ulp = pow2 (max (binaryExponent x) (- 1022) - 52)"
  have ulp: "0 < ulp" by (simp add: ulp_def pow2_pos)
  from assms(2) have r: "r = of_int (roundHalfEven (x / ulp)) * ulp"
    by (simp add: roundPositive_def Let_def ulp_def split: if_splits)
  have "\<bar>of_int (roundHalfEven (x / ulp)) - x / ulp\<bar> \<le> 1 / 2"
    using roundHalfEven_upper [of "x / ulp"] roundHalfEven_lower [of "x / ulp"] by linarith
  then have "\<bar>of_int (roundHalfEven (x / ulp)) - x / ulp\<bar> * ulp \<le> 1 / 2 * ulp"
    using ulp by (simp only: mult_le_cancel_right_pos)
  moreover have "\<bar>of_int (roundHalfEven (x / ulp)) - x / ulp\<bar> * ulp = \<bar>r - x\<bar>"
  proof -
    have "(of_int (roundHalfEven (x / ulp)) - x / ulp) * ulp = r - x"
      using ulp by (simp add: r left_diff_distrib)
    then have "\<bar>r - x\<bar> = \<bar>(of_int (roundHalfEven (x / ulp)) - x / ulp) * ulp\<bar>" by simp
    also have "\<dots> = \<bar>of_int (roundHalfEven (x / ulp)) - x / ulp\<bar> * \<bar>ulp\<bar>" by (rule abs_mult)
    finally show ?thesis using ulp by simp
  qed
  ultimately show ?thesis by (simp add: ulp_def)
qed

lemma roundPositive_relative:
  assumes "0 < x" "- 1022 \<le> binaryExponent x" "roundPositive x = Dbl r"
  shows "\<bar>r - x\<bar> \<le> x / 2 ^ 53"
proof -
  have "pow2 (max (binaryExponent x) (- 1022) - 52) = pow2 (binaryExponent x) * pow2 (- 52)"
    using assms(2) pow2_add [of "binaryExponent x" "- 52"] by (simp add: max_def)
  also have "\<dots> \<le> x * pow2 (- 52)"
    using binaryExponent_le [OF assms(1)] pow2_pos [of "- 52"] by (simp only: mult_le_cancel_right_pos)
  finally have "pow2 (max (binaryExponent x) (- 1022) - 52) / 2 \<le> x * pow2 (- 52) / 2" by simp
  also have "\<dots> = x / 2 ^ 53" by (simp add: pow2_def)
  finally show ?thesis using roundPositive_error [OF assms(1,3)] by linarith
qed

lemma roundPositive_lower:
  assumes "0 < x" "- 1022 \<le> binaryExponent x"
  shows "roundPositive x = PosInfinity \<or> (\<exists>r. roundPositive x = Dbl r \<and> pow2 (binaryExponent x) \<le> r)"
proof -
  define e where "e = binaryExponent x"
  define ulp where "ulp = pow2 (e - 52)"
  have ulp: "0 < ulp" by (simp add: ulp_def pow2_pos)
  have "pow2 e = pow2 52 * ulp" using pow2_add [of 52 "e - 52"] by (simp add: ulp_def)
  then have e52: "pow2 e = of_int (2 ^ 52) * ulp" by (simp add: pow2_def)
  have "pow2 e \<le> x" unfolding e_def by (rule binaryExponent_le [OF assms(1)])
  then have "of_int (2 ^ 52) \<le> x / ulp" using ulp by (simp add: e52 le_divide_eq)
  then have "2 ^ 52 \<le> roundHalfEven (x / ulp)" by (rule roundHalfEven_ge)
  then have "(of_int (2 ^ 52) :: rat) \<le> of_int (roundHalfEven (x / ulp))" by (simp only: of_int_le_iff)
  then have "of_int (2 ^ 52) * ulp \<le> of_int (roundHalfEven (x / ulp)) * ulp"
    using ulp by (simp only: mult_le_cancel_right_pos)
  then have "pow2 e \<le> of_int (roundHalfEven (x / ulp)) * ulp" by (simp only: e52)
  then show ?thesis
    using assms(2) by (simp add: roundPositive_def Let_def max_def e_def ulp_def)
qed

lemma roundPositive_nonneg:
  assumes "0 < x" "roundPositive x = Dbl r"
  shows "0 \<le> r"
proof -
  define ulp where "ulp = pow2 (max (binaryExponent x) (- 1022) - 52)"
  have ulp: "0 < ulp" by (simp add: ulp_def pow2_pos)
  from assms(2) have r: "r = of_int (roundHalfEven (x / ulp)) * ulp"
    by (simp add: roundPositive_def Let_def ulp_def split: if_splits)
  have "0 \<le> roundHalfEven (x / ulp)" using assms(1) ulp by (intro roundHalfEven_nonneg) simp
  then show ?thesis using ulp by (simp add: r)
qed

lemma roundPositive_exact:
  assumes "0 < x" "x = of_int m * pow2 (max (binaryExponent x) (- 1022) - 52)" "x < pow2 1024"
  shows "roundPositive x = Dbl x"
proof -
  define ulp where "ulp = pow2 (max (binaryExponent x) (- 1022) - 52)"
  have ulp: "0 < ulp" by (simp add: ulp_def pow2_pos)
  from assms(2) have "x / ulp = of_int m" using ulp by (simp add: ulp_def [symmetric])
  then have "of_int (roundHalfEven (x / ulp)) * ulp = x"
    using assms(2) by (simp add: roundHalfEven_of_int ulp_def [symmetric])
  then show ?thesis using assms(3) by (simp add: roundPositive_def Let_def ulp_def [symmetric])
qed

lemma bitLength_le: "n < 2 ^ k \<Longrightarrow> bitLength n \<le> k"
proof (cases "n = 0")
  case True
  then show ?thesis by (simp add: bitLength.simps)
next
  case False
  assume "n < 2 ^ k"
  moreover from False have "2 ^ (bitLength n - 1) \<le> n" by (intro bitLength_lower) simp
  ultimately have "(2::nat) ^ (bitLength n - 1) < 2 ^ k" by (rule le_less_trans [rotated])
  then have "bitLength n - 1 < k" by simp
  then show ?thesis by simp
qed

lemma bitLength_gt: "2 ^ k \<le> n \<Longrightarrow> k < bitLength n"
proof -
  assume "2 ^ k \<le> n"
  then have "(2::nat) ^ k < 2 ^ bitLength n" using bitLength_upper [of n] by (rule le_less_trans)
  then show ?thesis by simp
qed

lemma binaryExponent_of_nat: "0 < n \<Longrightarrow> binaryExponent (of_nat n) = int (bitLength n) - 1"
  by (simp add: binaryExponent_def)

lemma toDouble_of_nat_small:
  assumes "n < 2 ^ 53"
  shows "toDouble (of_nat n) = Dbl (of_nat n)"
proof (cases "n = 0")
  case True
  then show ?thesis by (simp add: toDouble_def)
next
  case False
  then have n: "0 < n" by simp
  define x :: rat where "x = of_nat n"
  have x: "0 < x" using n by (simp add: x_def)
  define d where "d = 53 - bitLength n"
  have bl: "bitLength n \<le> 53" "0 < bitLength n" using bitLength_le [OF assms] bitLength_pos [OF n] by simp_all
  have e: "binaryExponent x = int (bitLength n) - 1" unfolding x_def by (rule binaryExponent_of_nat [OF n])
  have "max (binaryExponent x) (- 1022) - 52 = - int d" using bl by (simp add: e d_def)
  then have ulp: "pow2 (max (binaryExponent x) (- 1022) - 52) = 1 / 2 ^ d" by (simp only: pow2_neg_nat)
  have rep: "x = of_int (int n * 2 ^ d) * pow2 (max (binaryExponent x) (- 1022) - 52)"
    unfolding ulp by (simp add: x_def)
  have "x < 2 ^ 53" using assms unfolding x_def
    by (metis of_nat_less_iff of_nat_numeral of_nat_power)
  also have "\<dots> < pow2 1024" by (simp add: pow2_def)
  finally have "x < pow2 1024" .
  from roundPositive_exact [OF x rep this] x show ?thesis by (simp add: toDouble_def x_def)
qed

lemma toDouble_of_nat_large:
  assumes "2 ^ 53 \<le> n"
  shows "toDouble (of_nat n) = PosInfinity \<or> (\<exists>r. toDouble (of_nat n) = Dbl r \<and> 2 ^ 53 \<le> r)"
proof -
  define x :: rat where "x = of_nat n"
  have "(0::nat) < 2 ^ 53" by simp
  with assms have n: "0 < n" by linarith
  have x: "0 < x" using n by (simp add: x_def)
  have e: "binaryExponent x = int (bitLength n) - 1" unfolding x_def by (rule binaryExponent_of_nat [OF n])
  from bitLength_gt [OF assms] have e53: "53 \<le> binaryExponent x" by (simp add: e)
  then have "pow2 53 \<le> pow2 (binaryExponent x)" by (rule pow2_mono)
  then have p: "2 ^ 53 \<le> pow2 (binaryExponent x)" by (simp add: pow2_def)
  from e53 have "- 1022 \<le> binaryExponent x" by simp
  from roundPositive_lower [OF x this] p x show ?thesis
    by (auto simp: toDouble_def x_def)
qed


lemma roundPositive_upper:
  assumes "0 < x" "x + pow2 (max (binaryExponent x) (- 1022) - 52) / 2 < pow2 1024"
  shows "\<exists>r. roundPositive x = Dbl r \<and> 0 \<le> r \<and> r \<le> x + pow2 (max (binaryExponent x) (- 1022) - 52) / 2"
proof -
  define ulp where "ulp = pow2 (max (binaryExponent x) (- 1022) - 52)"
  have ulp: "0 < ulp" by (simp add: ulp_def pow2_pos)
  define r where "r = of_int (roundHalfEven (x / ulp)) * ulp"
  have "of_int (roundHalfEven (x / ulp)) * ulp \<le> (x / ulp + 1 / 2) * ulp"
    using roundHalfEven_upper [of "x / ulp"] ulp by (simp only: mult_le_cancel_right_pos)
  also have "\<dots> = x + ulp / 2" using ulp by (simp add: distrib_right)
  finally have le: "r \<le> x + ulp / 2" by (simp add: r_def)
  with assms(2) have "r < pow2 1024" by (simp add: ulp_def)
  then have run: "roundPositive x = Dbl r"
    by (simp add: roundPositive_def Let_def ulp_def [symmetric] r_def [symmetric])
  from roundPositive_nonneg [OF assms(1) run] le run show ?thesis by (auto simp: ulp_def)
qed

lemma halfUlp_normal:
  assumes "0 < x" "- 1022 \<le> binaryExponent x"
  shows "pow2 (max (binaryExponent x) (- 1022) - 52) / 2 \<le> x / 2 ^ 53"
proof -
  have "pow2 (max (binaryExponent x) (- 1022) - 52) = pow2 (binaryExponent x) * pow2 (- 52)"
    using assms(2) pow2_add [of "binaryExponent x" "- 52"] by (simp add: max_def)
  also have "\<dots> \<le> x * pow2 (- 52)"
    using binaryExponent_le [OF assms(1)] pow2_pos [of "- 52"] by (simp only: mult_le_cancel_right_pos)
  finally have "pow2 (max (binaryExponent x) (- 1022) - 52) / 2 \<le> x * pow2 (- 52) / 2" by simp
  also have "\<dots> = x / 2 ^ 53" by (simp add: pow2_def)
  finally show ?thesis .
qed

section \<open>Entry counts\<close>

text \<open>
  An entry count is an integer, an infinity or \<open>NaN\<close>. \<open>+Infinity\<close> is the
  quotient of a positive donation by a zero \<open>minAmount\<close>; \<open>-Infinity\<close> and
  \<open>NaN\<close> complete the values that sums and differences of such numbers can take.
  A finite result is rounded as every number is: \<open>roundInt\<close> is the identity on
  the integers of magnitude below \<open>2 ^ 53\<close> (lemma \<open>roundInt_small\<close>).
\<close>

datatype jsnum = Fin int | PInf | NInf | NaN

definition roundInt :: "int \<Rightarrow> jsnum" where
  "roundInt k =
     (case toDouble (of_int k) of
        Dbl r \<Rightarrow> Fin \<lfloor>r\<rfloor>
      | PosInfinity \<Rightarrow> PInf
      | NegInfinity \<Rightarrow> NInf)"

text \<open>\<open>a + b\<close>\<close>

fun js_add :: "jsnum \<Rightarrow> jsnum \<Rightarrow> jsnum" where
  "js_add (Fin a) (Fin b) = roundInt (a + b)"
| "js_add NaN b = NaN"
| "js_add a NaN = NaN"
| "js_add PInf NInf = NaN"
| "js_add NInf PInf = NaN"
| "js_add PInf b = PInf"
| "js_add a PInf = PInf"
| "js_add NInf b = NInf"
| "js_add a NInf = NInf"

text \<open>\<open>m - a\<close> for an integer \<open>m\<close>\<close>

fun js_sub :: "int \<Rightarrow> jsnum \<Rightarrow> jsnum" where
  "js_sub m (Fin a) = roundInt (m - a)"
| "js_sub m PInf = NInf"
| "js_sub m NInf = PInf"
| "js_sub m NaN = NaN"

text \<open>\<open>Math.min(a, b)\<close>\<close>

fun js_min :: "jsnum \<Rightarrow> jsnum \<Rightarrow> jsnum" where
  "js_min NaN b = NaN"
| "js_min a NaN = NaN"
| "js_min NInf b = NInf"
| "js_min a NInf = NInf"
| "js_min (Fin a) (Fin b) = Fin (min a b)"
| "js_min (Fin a) PInf = Fin a"
| "js_min PInf b = b"

text \<open>\<open>x <= 0\<close>\<close>

fun js_le_zero :: "jsnum \<Rightarrow> bool" where
  "js_le_zero (Fin a) = (a \<le> 0)"
| "js_le_zero NInf = True"
| "js_le_zero _ = False"

text \<open>\<open>x >= m\<close> for an integer \<open>m\<close>\<close>

fun js_ge :: "jsnum \<Rightarrow> int \<Rightarrow> bool" where
  "js_ge (Fin a) m = (m \<le> a)"
| "js_ge PInf m = True"
| "js_ge _ m = False"

text \<open>\<open>x > m\<close> for an integer \<open>m\<close>\<close>

fun js_gt :: "jsnum \<Rightarrow> int \<Rightarrow> bool" where
  "js_gt (Fin a) m = (m < a)"
| "js_gt PInf m = True"
| "js_gt _ m = False"

text \<open>\<open>!x\<close>: 0 and \<open>NaN\<close> are falsy.\<close>

fun js_falsy :: "jsnum \<Rightarrow> bool" where
  "js_falsy (Fin a) = (a = 0)"
| "js_falsy NaN = True"
| "js_falsy _ = False"

text \<open>
  An optional numeric field is \<open>None\<close> when the property is absent. JavaScript
  truthiness of such a field: absent and \<open>0\<close> are both falsy.
\<close>

definition truthy :: "('a::zero) option \<Rightarrow> bool" where
  "truthy x = (case x of None \<Rightarrow> False | Some n \<Rightarrow> n \<noteq> 0)"

text \<open>Truthiness of an optional string: absent and the empty string are falsy.\<close>

definition truthyStr :: "string option \<Rightarrow> bool" where
  "truthyStr x = (case x of None \<Rightarrow> False | Some s \<Rightarrow> s \<noteq> [])"

text \<open>
  A JavaScript object used as a dictionary is an association list in insertion order.
  \<open>objGet\<close> reads a property; \<open>objSet\<close> assigns one: an existing key keeps its
  place, a new key goes last.
\<close>

fun objGet :: "(string \<times> 'v) list \<Rightarrow> string \<Rightarrow> 'v option" where
  "objGet [] k = None"
| "objGet ((k', v) # ps) k = (if k' = k then Some v else objGet ps k)"

fun objSet :: "string \<Rightarrow> 'v \<Rightarrow> (string \<times> 'v) list \<Rightarrow> (string \<times> 'v) list" where
  "objSet k v [] = [(k, v)]"
| "objSet k v ((k', v') # ps) = (if k' = k then (k, v) # ps else (k', v') # objSet k v ps)"

text \<open>
  \<open>Object.values(o).reduce((sum, count) => sum + count, 0)\<close>: a left fold from 0.
\<close>

definition sumEntries :: "(string \<times> jsnum) list \<Rightarrow> jsnum" where
  "sumEntries ledger = foldl js_add (Fin 0) (map snd ledger)"

text \<open>
  \<open>if (!o[k]) o[k] = 0; o[k] += n\<close>: a missing or falsy count starts from 0.
\<close>

definition addCount :: "string \<Rightarrow> jsnum \<Rightarrow> (string \<times> jsnum) list \<Rightarrow> (string \<times> jsnum) list" where
  "addCount k n ledger =
     (case objGet ledger k of
        None \<Rightarrow> objSet k (js_add (Fin 0) n) ledger
      | Some c \<Rightarrow> objSet k (js_add (if js_falsy c then Fin 0 else c) n) ledger)"

subsection \<open>Facts about count arithmetic\<close>

lemma toDouble_of_int_small:
  assumes "- (2 ^ 53) < k" "k < 2 ^ 53"
  shows "toDouble (of_int k) = Dbl (of_int k)"
proof (cases "0 \<le> k")
  case True
  then have "nat k < 2 ^ 53" using assms(2) by (simp add: nat_less_iff)
  from toDouble_of_nat_small [OF this] True show ?thesis by simp
next
  case False
  then have neg: "k < 0" by simp
  then have "nat (- k) < 2 ^ 53" using assms(1) by (simp add: nat_less_iff)
  from toDouble_of_nat_small [OF this] neg
  have "toDouble (of_int (- k)) = Dbl (of_int (- k))" by simp
  with neg show ?thesis by (simp add: toDouble_def)
qed

lemma roundInt_small: "- 9007199254740992 < k \<Longrightarrow> k < 9007199254740992 \<Longrightarrow> roundInt k = Fin k"
  using toDouble_of_int_small [of k] by (simp add: roundInt_def)

lemma roundInt_large:
  assumes "9007199254740992 \<le> k"
  shows "roundInt k = PInf \<or> (\<exists>r. roundInt k = Fin r \<and> 9007199254740992 \<le> r)"
proof -
  from assms have "2 ^ 53 \<le> nat k" by (simp add: le_nat_iff)
  from toDouble_of_nat_large [OF this] assms
  consider "toDouble (of_int k) = PosInfinity"
    | r where "toDouble (of_int k) = Dbl r" "2 ^ 53 \<le> r"
    by auto
  then show ?thesis
  proof cases
    case 1
    then show ?thesis by (simp add: roundInt_def)
  next
    case 2
    from 2(2) have "2 ^ 53 \<le> \<lfloor>r\<rfloor>" by (simp add: le_floor_iff)
    with 2(1) show ?thesis by (simp add: roundInt_def)
  qed
qed

text \<open>\<open>x < 0\<close>\<close>

fun js_negative :: "jsnum \<Rightarrow> bool" where
  "js_negative (Fin a) = (a < 0)"
| "js_negative NInf = True"
| "js_negative _ = False"

text \<open>\<open>x >= 0\<close>\<close>

fun js_nonneg :: "jsnum \<Rightarrow> bool" where
  "js_nonneg (Fin a) = (0 \<le> a)"
| "js_nonneg PInf = True"
| "js_nonneg _ = False"

lemma roundInt_pos:
  assumes "0 < k"
  shows "roundInt k = PInf \<or> (\<exists>r. roundInt k = Fin r \<and> 0 < r)"
proof (cases "k < 9007199254740992")
  case True
  with assms show ?thesis by (simp add: roundInt_small)
next
  case False
  then have "9007199254740992 \<le> k" by simp
  from roundInt_large [OF this] show ?thesis by auto
qed

text \<open>
  The exact sum of a ledger whose counts are all non-negative integers (\<open>None\<close> for
  any other ledger).
\<close>

fun exactTotal :: "(string \<times> jsnum) list \<Rightarrow> int option" where
  "exactTotal [] = Some 0"
| "exactTotal ((k, Fin c) # ps) =
     (if c < 0 then None else map_option (\<lambda>s. c + s) (exactTotal ps))"
| "exactTotal ((k, _) # ps) = None"

lemma exactTotal_nonneg: "exactTotal l = Some s \<Longrightarrow> 0 \<le> s"
  by (induction l arbitrary: s rule: exactTotal.induct) (auto split: if_splits)

lemma foldl_exact:
  assumes "exactTotal l = Some s" "0 \<le> a" "a + s < 9007199254740992"
  shows "foldl js_add (Fin a) (map snd l) = Fin (a + s)"
  using assms
proof (induction l arbitrary: a s rule: exactTotal.induct)
  case 1
  then show ?case by simp
next
  case (2 k c ps)
  from "2.prems"(1) obtain s' where s': "exactTotal ps = Some s'" "s = c + s'" "0 \<le> c"
    by (auto split: if_splits)
  from exactTotal_nonneg [OF s'(1)] have "0 \<le> s'" .
  with "2.prems" s' have small: "a + c < 9007199254740992" "- 9007199254740992 < a + c" by simp_all
  have "foldl js_add (Fin (a + c)) (map snd ps) = Fin (a + c + s')"
    using "2.IH" [of s' "a + c"] s' "2.prems" by simp
  with small s' show ?case by (simp add: roundInt_small add.assoc)
qed simp_all

lemma sumEntries_exact:
  "exactTotal l = Some s \<Longrightarrow> s < 9007199254740992 \<Longrightarrow> sumEntries l = Fin s"
  using foldl_exact [of l s 0] by (simp add: sumEntries_def)

lemma foldl_PInf:
  "list_all js_nonneg cs \<Longrightarrow> foldl js_add PInf cs = PInf"
proof (induction cs)
  case Nil
  show ?case by simp
next
  case (Cons c cs)
  then show ?case by (cases c) simp_all
qed

lemma foldl_exact_conv:
  assumes "foldl js_add (Fin a) (map snd l) = Fin t" "0 \<le> a" "t < 9007199254740992"
    and "list_all js_nonneg (map snd l)"
  shows "\<exists>s. exactTotal l = Some s \<and> a + s = t"
  using assms
proof (induction l arbitrary: a)
  case Nil
  then show ?case by simp
next
  case (Cons p ps)
  obtain k c where p: "p = (k, c)" by (cases p)
  from Cons.prems(4) p have nn: "js_nonneg c" "list_all js_nonneg (map snd ps)" by simp_all
  show ?case
  proof (cases c)
    case (Fin n)
    with nn have n: "0 \<le> n" by simp
    show ?thesis
    proof (cases "a + n < 9007199254740992")
      case True
      with n Cons.prems(2) have r: "roundInt (a + n) = Fin (a + n)" by (simp add: roundInt_small)
      from Cons.prems(1) p Fin r have "foldl js_add (Fin (a + n)) (map snd ps) = Fin t" by simp
      from Cons.IH [OF this _ Cons.prems(3) nn(2)] n Cons.prems(2)
      obtain s where "exactTotal ps = Some s" "a + n + s = t" by auto
      with p Fin n show ?thesis by simp
    next
      case False
      then have "9007199254740992 \<le> a + n" by simp
      from roundInt_large [OF this]
      consider "roundInt (a + n) = PInf" | r where "roundInt (a + n) = Fin r" "9007199254740992 \<le> r"
        by auto
      then show ?thesis
      proof cases
        case 1
        with Cons.prems(1) p Fin foldl_PInf [OF nn(2)] show ?thesis by simp
      next
        case 2
        with Cons.prems(1) p Fin have "foldl js_add (Fin r) (map snd ps) = Fin t" by simp
        from Cons.IH [OF this _ Cons.prems(3) nn(2)] 2(2)
        obtain s where s: "exactTotal ps = Some s" "r + s = t" by auto
        from exactTotal_nonneg [OF s(1)] s(2) 2(2) Cons.prems(3) show ?thesis by simp
      qed
    qed
  next
    case PInf
    with Cons.prems(1) p foldl_PInf [OF nn(2)] show ?thesis by simp
  next
    case NInf
    with nn show ?thesis by simp
  next
    case NaN
    with nn show ?thesis by simp
  qed
qed

lemma sumEntries_exact_conv:
  assumes "sumEntries l = Fin t" "t < 9007199254740992" "list_all js_nonneg (map snd l)"
  shows "exactTotal l = Some t"
  using foldl_exact_conv [of 0 l t] assms by (simp add: sumEntries_def)

lemma exactTotal_objGet:
  "exactTotal l = Some s \<Longrightarrow> objGet l k = Some c \<Longrightarrow> \<exists>c0. c = Fin c0 \<and> 0 \<le> c0 \<and> c0 \<le> s"
proof (induction l arbitrary: s rule: exactTotal.induct)
  case 1
  then show ?case by simp
next
  case (2 k' c' ps)
  from "2.prems"(1) obtain s' where s': "exactTotal ps = Some s'" "s = c' + s'" "0 \<le> c'"
    by (auto split: if_splits)
  from exactTotal_nonneg [OF s'(1)] have "0 \<le> s'" .
  show ?case
  proof (cases "k' = k")
    case True
    with "2.prems"(2) s' \<open>0 \<le> s'\<close> show ?thesis by auto
  next
    case False
    with "2.prems"(2) have "objGet ps k = Some c" by simp
    from "2.IH" [OF _ s'(1) this] s' show ?thesis by auto
  qed
qed simp_all

lemma exactTotal_objSet_new:
  "objGet l k = None \<Longrightarrow> exactTotal l = Some s \<Longrightarrow> 0 \<le> n \<Longrightarrow>
   exactTotal (objSet k (Fin n) l) = Some (s + n)"
proof (induction l arbitrary: s rule: exactTotal.induct)
  case 1
  then show ?case by simp
next
  case (2 k' c' ps)
  from "2.prems"(2) obtain s' where s': "exactTotal ps = Some s'" "s = c' + s'" "0 \<le> c'"
    by (auto split: if_splits)
  from "2.prems"(1) have ne: "k' \<noteq> k" and none: "objGet ps k = None" by (auto split: if_splits)
  from "2.IH" [OF _ none s'(1) "2.prems"(3)] s' ne show ?case by simp
qed simp_all

lemma exactTotal_objSet_old:
  "objGet l k = Some (Fin c0) \<Longrightarrow> exactTotal l = Some s \<Longrightarrow> 0 \<le> n \<Longrightarrow>
   exactTotal (objSet k (Fin n) l) = Some (s - c0 + n)"
proof (induction l arbitrary: s rule: exactTotal.induct)
  case 1
  then show ?case by simp
next
  case (2 k' c' ps)
  from "2.prems"(2) obtain s' where s': "exactTotal ps = Some s'" "s = c' + s'" "0 \<le> c'"
    by (auto split: if_splits)
  show ?case
  proof (cases "k' = k")
    case True
    with "2.prems"(1) have "c' = c0" by simp
    with True s' "2.prems"(3) show ?thesis by simp
  next
    case False
    with "2.prems"(1) have "objGet ps k = Some (Fin c0)" by simp
    from "2.IH" [OF _ this s'(1) "2.prems"(3)] s' False show ?thesis by simp
  qed
qed simp_all

lemma exactTotal_addCount:
  assumes "exactTotal l = Some s" "0 \<le> n" "s + n < 9007199254740992"
  shows "exactTotal (addCount k (Fin n) l) = Some (s + n)"
proof (cases "objGet l k")
  case None
  from exactTotal_nonneg [OF assms(1)] assms(2,3) have "roundInt n = Fin n"
    by (simp add: roundInt_small)
  with None exactTotal_objSet_new [OF None assms(1,2)] show ?thesis
    by (simp add: addCount_def)
next
  case (Some c)
  from exactTotal_objGet [OF assms(1) Some] obtain c0 where c: "c = Fin c0" "0 \<le> c0" "c0 \<le> s"
    by blast
  with assms(2,3) have r: "roundInt (c0 + n) = Fin (c0 + n)" "roundInt n = Fin n"
    by (simp_all add: roundInt_small)
  from c(2) assms(2) have "0 \<le> c0 + n" by simp
  from exactTotal_objSet_old [OF Some [unfolded c(1)] assms(1) this]
  have "exactTotal (objSet k (Fin (c0 + n)) l) = Some (s + n)" by simp
  with Some c r show ?thesis by (auto simp: addCount_def)
qed

section \<open>Data model\<close>

record donation =
  d_amount :: rat
  d_currency :: string
  d_originalAmount :: rat
  d_timestamp :: int
  d_recipient :: string

record streaks =
  current :: int
  longest :: int
  lastDonation :: "int option"

text \<open>
  A user record. A field the code initialises on first use (\<open>if (!u.f) u.f = ...\<close>,
  \<open>u.wins || 0\<close>) is modelled as always present with that initial value.
\<close>

record user =
  totalDonated :: rat
  userEntries :: "(string \<times> jsnum) list"
  donations :: "donation list"
  achievements :: "string list"
  wins :: jsnum
  userStreaks :: streaks
  selectedDraw :: "string option"
  referredBy :: "string option"

text \<open>The record \<open>handleTipccDonation\<close> creates for a sender it has not seen.\<close>

definition newUser :: user where
  "newUser =
     \<lparr>totalDonated = 0, userEntries = [], donations = [], achievements = [], wins = Fin 0,
      userStreaks = \<lparr>current = 0, longest = 0, lastDonation = None\<rparr>,
      selectedDraw = None, referredBy = None\<rparr>"

record draw =
  minAmount :: rat
  maxAmount :: "rat option"
  maxEntries :: "int option"
  vipOnly :: bool
  manualEntriesOnly :: bool
  active :: bool
  entries :: "(string \<times> jsnum) list"
  winner :: "string option"
  winnerSelectedAt :: "int option"
  selectedBy :: "string option"

section \<open>Entry allocation (handleTipccDonation, the loop over the draws)\<close>

text \<open>
  \<open>Math.floor(usdValue / draw.minAmount)\<close>: the floor of the quotient as a double,
  that is, of the exact quotient rounded to the nearest double. The quotient by a zero
  \<open>minAmount\<close> is \<open>+Infinity\<close> for a positive \<open>usdValue\<close>, which is the
  case at this point of the handler (a falsy value has returned before, and no price
  source yields a negative number), \<open>-Infinity\<close> for a negative one and
  \<open>NaN\<close> for \<open>0 / 0\<close>; \<open>Math.floor\<close> returns an infinity or
  \<open>NaN\<close> unchanged.
\<close>

definition floorEntries :: "rat \<Rightarrow> rat \<Rightarrow> jsnum" where
  "floorEntries usdValue m =
     (if m = 0 then (if 0 < usdValue then PInf else if usdValue < 0 then NInf else NaN)
      else case toDouble (usdValue / m) of
             Dbl q \<Rightarrow> Fin \<lfloor>q\<rfloor>
           | PosInfinity \<Rightarrow> PInf
           | NegInfinity \<Rightarrow> NInf)"

text \<open>
  One pass of the loop body for the draw stored under \<open>drawId\<close>, up to the
  computation of \<open>entriesToAdd\<close>. \<open>None\<close> is a \<open>continue\<close>: the draw is
  skipped and nothing is written. \<open>selectedDrawId\<close> is the sender's
  \<open>selectedDraw\<close>, \<open>vipRoleId\<close> the configured VIP role, \<open>roles\<close> the roles the
  sender holds.
\<close>

definition entriesToAdd ::
  "rat \<Rightarrow> string option \<Rightarrow> string option \<Rightarrow> string list \<Rightarrow> string \<Rightarrow> draw \<Rightarrow> jsnum option" where
  "entriesToAdd usdValue selectedDrawId vipRoleId roles drawId d =
     (if \<not> active d then None
      else if usdValue < minAmount d \<or> (truthy (maxAmount d) \<and> usdValue > the (maxAmount d)) then None
      else if manualEntriesOnly d then None
      else if truthyStr selectedDrawId \<and> selectedDrawId \<noteq> Some ''auto'' \<and> Some drawId \<noteq> selectedDrawId
        then None
      else if vipOnly d \<and> truthyStr vipRoleId \<and> the vipRoleId \<notin> set roles then None
      else
        let n = floorEntries usdValue (minAmount d) in
        if js_le_zero n then None
        else
          let currentEntries = sumEntries (entries d) in
          if truthy (maxEntries d) \<and> js_ge currentEntries (the (maxEntries d)) then None
          else Some (if truthy (maxEntries d)
                     then js_min n (js_sub (the (maxEntries d)) currentEntries)
                     else n))"

text \<open>The number of entries a donation grants to one draw: 0 when the draw is skipped.\<close>

definition granted ::
  "rat \<Rightarrow> string option \<Rightarrow> string option \<Rightarrow> string list \<Rightarrow> string \<Rightarrow> draw \<Rightarrow> jsnum" where
  "granted usdValue selectedDrawId vipRoleId roles drawId d =
     (case entriesToAdd usdValue selectedDrawId vipRoleId roles drawId d of
        None \<Rightarrow> Fin 0
      | Some n \<Rightarrow> n)"

text \<open>
  The loop \<open>for (const [drawId, draw] of Object.entries(db.donationDraws))\<close>. The
  state it threads: the sender's record (its \<open>entries\<close> grow) and
  \<open>entriesAdded\<close>; each draw is returned with its updated ledger.
\<close>

fun allocate ::
  "string \<Rightarrow> rat \<Rightarrow> string option \<Rightarrow> string option \<Rightarrow> string list \<Rightarrow>
   (string \<times> draw) list \<Rightarrow> user \<Rightarrow> jsnum \<Rightarrow> (string \<times> draw) list \<times> user \<times> jsnum" where
  "allocate senderId usdValue sel vip roles [] u entriesAdded = ([], u, entriesAdded)"
| "allocate senderId usdValue sel vip roles ((drawId, d) # rest) u entriesAdded =
     (case entriesToAdd usdValue sel vip roles drawId d of
        None \<Rightarrow>
          (let (rest', u', added') = allocate senderId usdValue sel vip roles rest u entriesAdded
           in ((drawId, d) # rest', u', added'))
      | Some n \<Rightarrow>
          (let d1 = d\<lparr>entries := addCount senderId n (entries d)\<rparr>;
               u1 = u\<lparr>userEntries := addCount drawId n (userEntries u)\<rparr>;
               (rest', u', added') =
                  allocate senderId usdValue sel vip roles rest u1 (js_add entriesAdded n)
           in ((drawId, d1) # rest', u', added')))"

section \<open>Facts about the allocation loop\<close>

lemma allocate_added:
  "snd (snd (allocate senderId usdValue sel vip roles draws u acc)) =
   foldl js_add acc (List.map_filter (\<lambda>(k, d). entriesToAdd usdValue sel vip roles k d) draws)"
proof (induction draws arbitrary: u acc)
  case Nil
  show ?case by simp
next
  case (Cons p draws)
  obtain k d where p: "p = (k, d)" by (cases p)
  show ?case
  proof (cases "entriesToAdd usdValue sel vip roles k d")
    case None
    then show ?thesis using Cons.IH [of u acc] p
      by (auto split: prod.splits)
  next
    case (Some n)
    then show ?thesis 
      using Cons.IH [of "u\<lparr>userEntries := addCount k n (userEntries u)\<rparr>" "js_add acc n"] p
      by (auto simp: Let_def split: prod.splits)
  qed
qed

lemma allocate_draws:
  "fst (allocate senderId v sel vip roles draws u acc) =
   map (\<lambda>(k, d). (k, case entriesToAdd v sel vip roles k d of
                        None \<Rightarrow> d
                      | Some n \<Rightarrow> d\<lparr>entries := addCount senderId n (entries d)\<rparr>)) draws"
proof (induction draws arbitrary: u acc)
  case Nil
  show ?case by simp
next
  case (Cons p draws)
  obtain k d where p: "p = (k, d)" by (cases p)
  show ?case
  proof (cases "entriesToAdd v sel vip roles k d")
    case None
    then show ?thesis using Cons.IH [of u acc] p
      by (auto split: prod.splits)
  next
    case (Some n)
    then show ?thesis
      using Cons.IH [of "u\<lparr>userEntries := addCount k n (userEntries u)\<rparr>" "js_add acc n"] p
      by (auto simp: Let_def split: prod.splits)
  qed
qed

section \<open>Eligibility and capacity, as the loop implements them\<close>

text \<open>
  The eligibility test in the words of the specification (claim C1): the maximum amount
  and the selected draw count as given whenever the property is present, and a VIP-only
  draw requires the sender to hold the configured VIP role.
\<close>

definition spec_eligible ::
  "rat \<Rightarrow> string option \<Rightarrow> string option \<Rightarrow> string list \<Rightarrow> string \<Rightarrow> draw \<Rightarrow> bool" where
  "spec_eligible v sel vip roles drawId d =
     (active d \<and> minAmount d \<le> v \<and> (maxAmount d = None \<or> v \<le> the (maxAmount d)) \<and>
      \<not> manualEntriesOnly d \<and> (sel = None \<or> sel = Some ''auto'' \<or> sel = Some drawId) \<and>
      (vipOnly d \<longrightarrow> (vip \<noteq> None \<and> the vip \<in> set roles)))"

text \<open>
  The eligibility test the loop runs. It differs from the specification's in three
  places, each a truthiness test of the source: a \<open>maxAmount\<close> of 0 and an empty
  \<open>selectedDraw\<close> count as absent, and the VIP test is made only when a VIP role is
  configured (\<open>draw.vipOnly && db.config?.vipRoleId\<close>).
\<close>

definition eligible ::
  "rat \<Rightarrow> string option \<Rightarrow> string option \<Rightarrow> string list \<Rightarrow> string \<Rightarrow> draw \<Rightarrow> bool" where
  "eligible v sel vip roles drawId d =
     (active d \<and> minAmount d \<le> v \<and> (\<not> truthy (maxAmount d) \<or> v \<le> the (maxAmount d)) \<and>
      \<not> manualEntriesOnly d \<and> (\<not> truthyStr sel \<or> sel = Some ''auto'' \<or> sel = Some drawId) \<and>
      (vipOnly d \<and> truthyStr vip \<longrightarrow> the vip \<in> set roles))"

text \<open>The draw has not reached its capacity.\<close>

definition hasSpace :: "draw \<Rightarrow> bool" where
  "hasSpace d = (case maxEntries d of None \<Rightarrow> True | Some M \<Rightarrow> \<not> js_ge (sumEntries (entries d)) M)"

text \<open>
  A count clamped to the remaining capacity \<open>maxEntries - currentEntries\<close> of a draw
  (nothing remains once the ledger has reached \<open>maxEntries\<close>); a draw without
  \<open>maxEntries\<close> has no limit.
\<close>

definition clampToCapacity :: "jsnum \<Rightarrow> draw \<Rightarrow> jsnum" where
  "clampToCapacity n d =
     (case maxEntries d of
        None \<Rightarrow> n
      | Some M \<Rightarrow>
          if js_ge (sumEntries (entries d)) M then Fin 0
          else js_min n (js_sub M (sumEntries (entries d))))"

lemma floorEntries_pos:
  assumes "0 < v" "0 \<le> m" "m \<le> v"
  shows "floorEntries v m = PInf \<or> (\<exists>n. floorEntries v m = Fin n \<and> 1 \<le> n)"
proof (cases "m = 0")
  case True
  with assms(1) show ?thesis by (simp add: floorEntries_def)
next
  case False
  with assms have m: "0 < m" by simp
  with assms have x: "1 \<le> v / m" by (simp add: le_divide_eq)
  then have x0: "0 < v / m" by simp
  from binaryExponent_nonneg [OF x] have e: "0 \<le> binaryExponent (v / m)" .
  then have "pow2 0 \<le> pow2 (binaryExponent (v / m))" by (rule pow2_mono)
  then have p: "1 \<le> pow2 (binaryExponent (v / m))" by (simp add: pow2_def)
  from e have "- 1022 \<le> binaryExponent (v / m)" by simp
  from roundPositive_lower [OF x0 this]
  consider "roundPositive (v / m) = PosInfinity"
    | r where "roundPositive (v / m) = Dbl r" "pow2 (binaryExponent (v / m)) \<le> r"
    by blast
  then show ?thesis
  proof cases
    case 1
    with False x0 assms(1) show ?thesis by (simp add: floorEntries_def toDouble_def)
  next
    case 2
    from 2(2) p have "1 \<le> r" by simp
    then have "1 \<le> \<lfloor>r\<rfloor>" by (simp add: le_floor_iff)
    with 2(1) False x0 assms(1) show ?thesis by (simp add: floorEntries_def toDouble_def)
  qed
qed

lemma floorEntries_not_le_zero:
  assumes "0 < v" "0 \<le> m" "m \<le> v"
  shows "\<not> js_le_zero (floorEntries v m)"
  using floorEntries_pos [OF assms] by auto

lemma entriesToAdd_not_eligible:
  "\<not> eligible v sel vip roles drawId d \<Longrightarrow> entriesToAdd v sel vip roles drawId d = None"
  unfolding entriesToAdd_def eligible_def by (auto simp: Let_def)

lemma entriesToAdd_eligible:
  assumes "eligible v sel vip roles drawId d" "\<not> js_le_zero (floorEntries v (minAmount d))"
  shows "entriesToAdd v sel vip roles drawId d =
           (if truthy (maxEntries d) \<and> js_ge (sumEntries (entries d)) (the (maxEntries d)) then None
            else Some (if truthy (maxEntries d)
                       then js_min (floorEntries v (minAmount d))
                              (js_sub (the (maxEntries d)) (sumEntries (entries d)))
                       else floorEntries v (minAmount d)))"
proof -
  from assms(1) have pre: "active d" "\<not> v < minAmount d"
      "\<not> (truthy (maxAmount d) \<and> v > the (maxAmount d))" "\<not> manualEntriesOnly d"
      "\<not> (truthyStr sel \<and> sel \<noteq> Some ''auto'' \<and> Some drawId \<noteq> sel)"
      "\<not> (vipOnly d \<and> truthyStr vip \<and> the vip \<notin> set roles)"
    by (auto simp: eligible_def)
  show ?thesis
    unfolding entriesToAdd_def Let_def
    using pre assms(2) by (simp only: if_False if_True simp_thms)
qed

lemma entriesToAdd_eq:
  assumes "0 < v" "0 \<le> minAmount d" "maxEntries d \<noteq> Some 0"
  shows "entriesToAdd v sel vip roles drawId d =
           (if eligible v sel vip roles drawId d \<and> hasSpace d
            then Some (clampToCapacity (floorEntries v (minAmount d)) d) else None)"
proof (cases "eligible v sel vip roles drawId d")
  case False
  then show ?thesis by (simp add: entriesToAdd_not_eligible)
next
  case True
  then have le: "minAmount d \<le> v" by (simp add: eligible_def)
  have pos: "\<not> js_le_zero (floorEntries v (minAmount d))"
    using floorEntries_not_le_zero [OF assms(1,2) le] .
  note step = entriesToAdd_eligible [OF True pos]
  show ?thesis
  proof (cases "maxEntries d")
    case None
    with True show ?thesis
      by (simp add: step truthy_def hasSpace_def clampToCapacity_def)
  next
    case (Some M)
    with assms(3) have M: "M \<noteq> 0" by simp
    with True Some show ?thesis
      by (simp add: step truthy_def hasSpace_def clampToCapacity_def)
  qed
qed

lemma granted_eq:
  assumes "0 < v" "0 \<le> minAmount d" "maxEntries d \<noteq> Some 0"
  shows "granted v sel vip roles drawId d =
           (if eligible v sel vip roles drawId d
            then clampToCapacity (floorEntries v (minAmount d)) d else Fin 0)"
proof (cases "eligible v sel vip roles drawId d \<and> \<not> hasSpace d")
  case False
  then show ?thesis
    by (auto simp: granted_def entriesToAdd_eq [OF assms])
next
  case True
  then obtain M where M: "maxEntries d = Some M" and full: "js_ge (sumEntries (entries d)) M"
    by (auto simp: hasSpace_def split: option.splits)
  then have "clampToCapacity (floorEntries v (minAmount d)) d = Fin 0"
    by (simp add: clampToCapacity_def)
  with True show ?thesis
    by (simp add: granted_def entriesToAdd_eq [OF assms])
qed

text \<open>A count that is written is positive or \<open>NaN\<close>, never zero or negative.\<close>

lemma entriesToAdd_positive:
  assumes "entriesToAdd v sel vip roles drawId d = Some n"
  shows "\<not> js_le_zero n"
proof -
  define n0 where "n0 = floorEntries v (minAmount d)"
  from assms have pos: "\<not> js_le_zero n0"
    and n: "n = (if truthy (maxEntries d)
                 then js_min n0 (js_sub (the (maxEntries d)) (sumEntries (entries d))) else n0)"
    and space: "\<not> (truthy (maxEntries d) \<and> js_ge (sumEntries (entries d)) (the (maxEntries d)))"
    unfolding entriesToAdd_def Let_def n0_def by (auto split: if_splits)
  show ?thesis
  proof (cases "truthy (maxEntries d)")
    case False
    with n pos show ?thesis by simp
  next
    case True
    with space have ge: "\<not> js_ge (sumEntries (entries d)) (the (maxEntries d))" by simp
    have "\<not> js_le_zero (js_sub (the (maxEntries d)) (sumEntries (entries d)))"
    proof (cases "sumEntries (entries d)")
      case (Fin c)
      with ge have "0 < the (maxEntries d) - c" by simp
      from roundInt_pos [OF this] Fin show ?thesis by auto
    qed (use ge in simp_all)
    with pos have "\<not> js_le_zero (js_min n0 (js_sub (the (maxEntries d)) (sumEntries (entries d))))"
      by (cases n0; cases "js_sub (the (maxEntries d)) (sumEntries (entries d))") (simp_all add: min_def)
    with True n show ?thesis by simp
  qed
qed

lemma granted_not_negative: "\<not> js_negative (granted usdValue sel vip roles drawId d)"
proof (cases "entriesToAdd usdValue sel vip roles drawId d")
  case None
  then show ?thesis by (simp add: granted_def)
next
  case (Some n)
  from entriesToAdd_positive [OF Some] Some show ?thesis
    by (cases n) (simp_all add: granted_def)
qed

text \<open>
  How far the count is from the floor of the exact quotient: the double quotient differs
  from the exact one by at most the fraction \<open>2 ^ -53\<close> of it.
\<close>

lemma floorEntries_bracket:
  assumes "0 < m" "m \<le> v"
  shows "floorEntries v m = PInf \<or>
         (\<exists>n. floorEntries v m = Fin n \<and> 1 \<le> n
            \<and> \<lfloor>v / m * (1 - 1 / 2 ^ 53)\<rfloor> \<le> n \<and> n \<le> \<lfloor>v / m * (1 + 1 / 2 ^ 53)\<rfloor>)"
proof -
  from assms have v: "0 < v" by simp
  from assms have x: "1 \<le> v / m" by (simp add: le_divide_eq)
  then have x0: "0 < v / m" by simp
  from binaryExponent_nonneg [OF x] have e: "- 1022 \<le> binaryExponent (v / m)" by simp
  from assms(1) have m0: "m \<noteq> 0" "0 \<le> m" by simp_all
  from floorEntries_pos [OF v m0(2) assms(2)]
  consider "floorEntries v m = PInf" | n where "floorEntries v m = Fin n" "1 \<le> n" by blast
  then show ?thesis
  proof cases
    case 1
    then show ?thesis by simp
  next
    case 2
    from 2(1) m0 x0 v obtain r where r: "roundPositive (v / m) = Dbl r" "n = \<lfloor>r\<rfloor>"
      by (auto simp: floorEntries_def toDouble_def split: jsdouble.splits if_splits)
    from roundPositive_relative [OF x0 e r(1)] have "\<bar>r - v / m\<bar> \<le> v / m / 2 ^ 53" .
    then have "v / m * (1 - 1 / 2 ^ 53) \<le> r" "r \<le> v / m * (1 + 1 / 2 ^ 53)"
      by (simp_all add: algebra_simps abs_le_iff)
    then have "\<lfloor>v / m * (1 - 1 / 2 ^ 53)\<rfloor> \<le> \<lfloor>r\<rfloor>" "\<lfloor>r\<rfloor> \<le> \<lfloor>v / m * (1 + 1 / 2 ^ 53)\<rfloor>"
      by (simp_all only: floor_mono)
    with 2 r(2) show ?thesis by simp
  qed
qed

text \<open>A donation that is exactly \<open>k\<close> times the minimum gives \<open>k\<close> entries.\<close>

lemma floorEntries_multiple:
  assumes "0 < m" "0 < k" "k < 2 ^ 53"
  shows "floorEntries (of_int k * m) m = Fin k"
proof -
  from assms(1) have "of_int k * m / m = of_int k" by simp
  moreover from assms(2,3) have "toDouble (of_int k) = Dbl (of_int k)"
    by (intro toDouble_of_int_small) simp_all
  ultimately show ?thesis using assms(1) by (simp add: floorEntries_def)
qed

section \<open>handleCreateDraw: the draw object it stores\<close>

text \<open>
  The arguments are the slash-command options: \<open>min_amount\<close> and \<open>max_entries\<close>
  are required, the others optional (\<open>null\<close> when omitted). No option has a minimum
  value, so \<open>min_amount\<close> and \<open>max_entries\<close> may be 0.
\<close>

definition newDraw :: "rat \<Rightarrow> rat option \<Rightarrow> int \<Rightarrow> bool option \<Rightarrow> bool option \<Rightarrow> draw" where
  "newDraw min_amount max_amount max_entries vip_only manual_entries =
     \<lparr>minAmount = min_amount,
      maxAmount = Some (if truthy max_amount then the max_amount else 1000000),
      maxEntries = Some max_entries,
      vipOnly = (case vip_only of None \<Rightarrow> False | Some b \<Rightarrow> b),
      manualEntriesOnly = (case manual_entries of None \<Rightarrow> False | Some b \<Rightarrow> b),
      active = True,
      entries = [],
      winner = None,
      winnerSelectedAt = None,
      selectedBy = None\<rparr>"

text \<open>
  \<open>handleEditDraw\<close>, on the draw it edits: an option that is given (not
  \<open>null\<close>) replaces the field, whatever its value.
\<close>

definition handleEditDraw ::
  "rat option \<Rightarrow> rat option \<Rightarrow> int option \<Rightarrow> bool option \<Rightarrow> bool option \<Rightarrow> bool option \<Rightarrow>
   draw \<Rightarrow> draw" where
  "handleEditDraw newMinAmount newMaxAmount newMaxEntries newActive newManualEntries newVipOnly d =
     d\<lparr>minAmount := (case newMinAmount of None \<Rightarrow> minAmount d | Some x \<Rightarrow> x),
       maxAmount := (case newMaxAmount of None \<Rightarrow> maxAmount d | Some x \<Rightarrow> Some x),
       maxEntries := (case newMaxEntries of None \<Rightarrow> maxEntries d | Some x \<Rightarrow> Some x),
       active := (case newActive of None \<Rightarrow> active d | Some b \<Rightarrow> b),
       manualEntriesOnly := (case newManualEntries of None \<Rightarrow> manualEntriesOnly d | Some b \<Rightarrow> b),
       vipOnly := (case newVipOnly of None \<Rightarrow> vipOnly d | Some b \<Rightarrow> b)\<rparr>"

text \<open>
  The doubles that the literals \<open>0.3\<close>, \<open>0.1\<close>, \<open>0.03\<close> and \<open>0.01\<close>
  denote.
\<close>

definition double_0_3 :: rat where "double_0_3 = 5404319552844595 / 18014398509481984"

definition double_0_1 :: rat where "double_0_1 = 3602879701896397 / 36028797018963968"

definition double_0_03 :: rat where "double_0_03 = 1080863910568919 / 36028797018963968"

definition double_0_01 :: rat where "double_0_01 = 5764607523034235 / 576460752303423488"

lemma sample_doubles:
  "toDouble (3 / 10) = Dbl double_0_3" "toDouble (1 / 10) = Dbl double_0_1"
  "toDouble (3 / 100) = Dbl double_0_03" "toDouble (1 / 100) = Dbl double_0_01"
  by (simp_all add: double_eval double_0_3_def double_0_1_def double_0_03_def double_0_01_def)

lemma sample_isDouble:
  "isDouble double_0_3" "isDouble double_0_1" "isDouble double_0_03" "isDouble double_0_01"
  "isDouble 10" "isDouble 5" "isDouble 4"
  by (simp_all add: isDouble_def double_eval double_0_3_def double_0_1_def double_0_03_def double_0_01_def)

lemmas count_eval = roundInt_small sumEntries_def addCount_def floorEntries_def

section \<open>Claim C1: which draws a donation enters, and with how many entries\<close>

text \<open>
  Claim C1, amended. For a processed donation of positive USD value \<open>v\<close> and a draw
  \<open>d\<close> with \<open>minAmount > 0\<close> (both doubles, as every JavaScript number is) whose
  \<open>maxEntries\<close> is absent or nonzero:
  entries are written to \<open>d\<close> if and only if \<open>d\<close> passes the eligibility test of
  the loop (\<open>eligible\<close>: active, \<open>v >= minAmount\<close>, \<open>maxAmount\<close> absent, 0 or
  \<open>>= v\<close>, not manual-only, \<open>selectedDraw\<close> absent, empty, \<open>auto\<close> or the
  draw's id, and, when the draw is VIP-only and a VIP role is configured, the sender holds
  that role) and has not reached its capacity; the granted count is
  \<open>Math.floor(v / minAmount)\<close> clamped to the remaining capacity for an eligible draw
  and 0 otherwise, where the quotient is the double quotient, that is, the exact quotient
  rounded to the nearest double: for an eligible draw \<open>Math.floor(v / minAmount)\<close> is
  \<open>+Infinity\<close> when the quotient overflows, and otherwise at least 1 and between
  the floors of the exact quotient times \<open>1 - 2 ^ -53\<close> and times
  \<open>1 + 2 ^ -53\<close>, so it can differ from the floor of the exact quotient; the
  granted count is never negative; the loop adds to the ledger of each draw
  exactly the count computed for it and leaves a skipped draw as it was; and
  \<open>entriesAdded\<close> of the whole loop is the sum (in JavaScript arithmetic) of the
  counts written.
\<close>

theorem allocation_grants:
  assumes "0 < usdValue" and "0 < minAmount d" and "maxEntries d \<noteq> Some 0"
    and "isDouble usdValue" and "isDouble (minAmount d)"
  shows "(entriesToAdd usdValue sel vip roles drawId d \<noteq> None \<longleftrightarrow>
            eligible usdValue sel vip roles drawId d \<and> hasSpace d)
       \<and> granted usdValue sel vip roles drawId d =
            (if eligible usdValue sel vip roles drawId d
             then clampToCapacity (floorEntries usdValue (minAmount d)) d else Fin 0)
       \<and> floorEntries usdValue (minAmount d) =
            (case toDouble (usdValue / minAmount d) of
               Dbl q \<Rightarrow> Fin \<lfloor>q\<rfloor> | PosInfinity \<Rightarrow> PInf | NegInfinity \<Rightarrow> NInf)
       \<and> (eligible usdValue sel vip roles drawId d \<longrightarrow>
            floorEntries usdValue (minAmount d) = PInf \<or>
            (\<exists>n. floorEntries usdValue (minAmount d) = Fin n \<and> 1 \<le> n
               \<and> \<lfloor>usdValue / minAmount d * (1 - 1 / 2 ^ 53)\<rfloor> \<le> n
               \<and> n \<le> \<lfloor>usdValue / minAmount d * (1 + 1 / 2 ^ 53)\<rfloor>))
       \<and> \<not> js_negative (granted usdValue sel vip roles drawId d)
       \<and> fst (allocate senderId usdValue sel vip roles draws u (Fin 0)) =
            map (\<lambda>(k, d'). (k, case entriesToAdd usdValue sel vip roles k d' of
                                  None \<Rightarrow> d'
                                | Some n \<Rightarrow> d'\<lparr>entries := addCount senderId n (entries d')\<rparr>)) draws
       \<and> snd (snd (allocate senderId usdValue sel vip roles draws u (Fin 0))) =
            foldl js_add (Fin 0)
              (List.map_filter (\<lambda>(k, d'). entriesToAdd usdValue sel vip roles k d') draws)"
proof -
  from assms(2) have m: "0 \<le> minAmount d" "minAmount d \<noteq> 0" by simp_all
  have 1: "entriesToAdd usdValue sel vip roles drawId d \<noteq> None \<longleftrightarrow>
          eligible usdValue sel vip roles drawId d \<and> hasSpace d"
    by (simp add: entriesToAdd_eq [OF assms(1) m(1) assms(3)])
  have 2: "granted usdValue sel vip roles drawId d =
            (if eligible usdValue sel vip roles drawId d
             then clampToCapacity (floorEntries usdValue (minAmount d)) d else Fin 0)"
    using granted_eq [OF assms(1) m(1) assms(3)] .
  have fl: "floorEntries usdValue (minAmount d) =
            (case toDouble (usdValue / minAmount d) of
               Dbl q \<Rightarrow> Fin \<lfloor>q\<rfloor> | PosInfinity \<Rightarrow> PInf | NegInfinity \<Rightarrow> NInf)"
    using m(2) by (simp add: floorEntries_def)
  have 3: "eligible usdValue sel vip roles drawId d \<longrightarrow>
            floorEntries usdValue (minAmount d) = PInf \<or>
            (\<exists>n. floorEntries usdValue (minAmount d) = Fin n \<and> 1 \<le> n
               \<and> \<lfloor>usdValue / minAmount d * (1 - 1 / 2 ^ 53)\<rfloor> \<le> n
               \<and> n \<le> \<lfloor>usdValue / minAmount d * (1 + 1 / 2 ^ 53)\<rfloor>)"
  proof
    assume "eligible usdValue sel vip roles drawId d"
    then have "minAmount d \<le> usdValue" by (simp add: eligible_def)
    from floorEntries_bracket [OF assms(2) this] show
      "floorEntries usdValue (minAmount d) = PInf \<or>
            (\<exists>n. floorEntries usdValue (minAmount d) = Fin n \<and> 1 \<le> n
               \<and> \<lfloor>usdValue / minAmount d * (1 - 1 / 2 ^ 53)\<rfloor> \<le> n
               \<and> n \<le> \<lfloor>usdValue / minAmount d * (1 + 1 / 2 ^ 53)\<rfloor>)" .
  qed
  from 1 2 fl 3 show ?thesis
    using granted_not_negative [of usdValue sel vip roles drawId d]
      allocate_added [of senderId usdValue sel vip roles draws u "Fin 0"]
      allocate_draws [of senderId usdValue sel vip roles draws u "Fin 0"]
    by simp
qed

text \<open>
  The theorem at a donation of 10 USD (and of 4 USD) and a draw created with
  \<open>min_amount = 5\<close>, \<open>max_entries = 100\<close>; at 0.3 USD and a minimum of 0.1,
  where the double quotient is 2.9999999999999996 and the count is 2; and at 0.03 USD
  and a minimum of 0.01, where the exact quotient of the two doubles is below 3 and the
  double quotient is 3.
\<close>

theorem allocation_grants_witness:
  "granted 10 None None [] ''draw_1'' (newDraw 5 None 100 None None) = Fin 2
   \<and> granted 4 None None [] ''draw_1'' (newDraw 5 None 100 None None) = Fin 0
   \<and> granted double_0_3 None None [] ''draw_1'' (newDraw double_0_1 None 100 None None) = Fin 2
   \<and> granted double_0_03 None None [] ''draw_1'' (newDraw double_0_01 None 100 None None) = Fin 3
   \<and> snd (snd (allocate ''u1'' 10 None None [] [(''draw_1'', newDraw 5 None 100 None None)] newUser (Fin 0)))
       = Fin 2"
proof -
  have d: "0 < minAmount (newDraw 5 None 100 None None)"
          "maxEntries (newDraw 5 None 100 None None) \<noteq> Some 0"
          "isDouble (minAmount (newDraw 5 None 100 None None))"
    by (simp_all add: newDraw_def sample_isDouble)
  have d1: "0 < minAmount (newDraw double_0_1 None 100 None None)"
          "maxEntries (newDraw double_0_1 None 100 None None) \<noteq> Some 0"
          "isDouble (minAmount (newDraw double_0_1 None 100 None None))"
    by (simp_all add: newDraw_def sample_isDouble) (simp add: double_0_1_def)
  have d2: "0 < minAmount (newDraw double_0_01 None 100 None None)"
          "maxEntries (newDraw double_0_01 None 100 None None) \<noteq> Some 0"
          "isDouble (minAmount (newDraw double_0_01 None 100 None None))"
    by (simp_all add: newDraw_def sample_isDouble) (simp add: double_0_01_def)
  have v: "(0::rat) < 10" "(0::rat) < 4" "0 < double_0_3" "0 < double_0_03"
    by (simp_all add: double_0_3_def double_0_03_def)
  have e10: "eligible 10 None None [] ''draw_1'' (newDraw 5 None 100 None None)"
    by (simp add: eligible_def newDraw_def truthy_def truthyStr_def)
  have e4: "\<not> eligible 4 None None [] ''draw_1'' (newDraw 5 None 100 None None)"
    by (simp add: eligible_def newDraw_def truthy_def truthyStr_def)
  have e03: "eligible double_0_3 None None [] ''draw_1'' (newDraw double_0_1 None 100 None None)"
    by (simp add: eligible_def newDraw_def truthy_def truthyStr_def double_0_3_def double_0_1_def)
  have e003: "eligible double_0_03 None None [] ''draw_1'' (newDraw double_0_01 None 100 None None)"
    by (simp add: eligible_def newDraw_def truthy_def truthyStr_def double_0_03_def double_0_01_def)
  have c: "clampToCapacity (Fin 2) (newDraw m None 100 None None) = Fin 2"
          "clampToCapacity (Fin 3) (newDraw m None 100 None None) = Fin 3" for m
    by (simp_all add: clampToCapacity_def newDraw_def count_eval)
  have q: "toDouble (10 / 5) = Dbl 2"
          "toDouble (double_0_3 / double_0_1) = Dbl (6755399441055743 / 2251799813685248)"
          "toDouble (double_0_03 / double_0_01) = Dbl 3"
    by (simp_all add: double_eval double_0_3_def double_0_1_def double_0_03_def double_0_01_def)
  have f: "\<lfloor>6755399441055743 / 2251799813685248 :: rat\<rfloor> = 2" by (simp add: floor_rat_numeral)
  from allocation_grants [OF v(1) d(1,2) sample_isDouble(5) d(3), of None None "[]" "''draw_1''" "''u1''"
      "[(''draw_1'', newDraw 5 None 100 None None)]" newUser]
  have g10: "granted 10 None None [] ''draw_1'' (newDraw 5 None 100 None None) = Fin 2"
    and tot: "snd (snd (allocate ''u1'' 10 None None []
                 [(''draw_1'', newDraw 5 None 100 None None)] newUser (Fin 0))) =
              foldl js_add (Fin 0) (List.map_filter (\<lambda>(k, d'). entriesToAdd 10 None None [] k d')
                 [(''draw_1'', newDraw 5 None 100 None None)])"
    using e10 c q by (simp_all add: newDraw_def)
  from allocation_grants [OF v(2) d(1,2) sample_isDouble(7) d(3), of None None "[]" "''draw_1''"]
  have g4: "granted 4 None None [] ''draw_1'' (newDraw 5 None 100 None None) = Fin 0"
    using e4 by simp
  from allocation_grants [OF v(3) d1(1,2) sample_isDouble(1) d1(3), of None None "[]" "''draw_1''"]
  have g03: "granted double_0_3 None None [] ''draw_1'' (newDraw double_0_1 None 100 None None) = Fin 2"
    using e03 c q f by (simp add: newDraw_def)
  from allocation_grants [OF v(4) d2(1,2) sample_isDouble(3) d2(3), of None None "[]" "''draw_1''"]
  have g003: "granted double_0_03 None None [] ''draw_1'' (newDraw double_0_01 None 100 None None) = Fin 3"
    using e003 c q by (simp add: newDraw_def)
  have "entriesToAdd 10 None None [] ''draw_1'' (newDraw 5 None 100 None None) = Some (Fin 2)"
    using g10 allocation_grants [OF v(1) d(1,2) sample_isDouble(5) d(3), of None None "[]" "''draw_1''"] e10
    by (auto simp: granted_def hasSpace_def newDraw_def count_eval split: option.splits)
  with tot have "snd (snd (allocate ''u1'' 10 None None []
                 [(''draw_1'', newDraw 5 None 100 None None)] newUser (Fin 0))) = Fin 2"
    by (simp add: count_eval)
  with g10 g4 g03 g003 show ?thesis by simp
qed

text \<open>
  Claim C1 as stated fails: with no VIP role configured, a sender without any role is
  granted 2 entries in a VIP-only draw, which the specification's test excludes; and a
  draw whose \<open>maxAmount\<close> has been edited to 0 grants 2 entries to a donation of
  10 USD, which is above that maximum.
\<close>

theorem vip_draw_without_vip_role_counterexample:
  "granted 10 None None [] ''draw_1'' (newDraw 5 None 100 (Some True) None) = Fin 2
   \<and> \<not> spec_eligible 10 None None [] ''draw_1'' (newDraw 5 None 100 (Some True) None)
   \<and> granted 10 None None [] ''draw_1''
         (handleEditDraw None (Some 0) None None None None (newDraw 5 None 100 None None)) = Fin 2
   \<and> \<not> spec_eligible 10 None None [] ''draw_1''
         (handleEditDraw None (Some 0) None None None None (newDraw 5 None 100 None None))"
  by (simp add: granted_def entriesToAdd_def spec_eligible_def newDraw_def handleEditDraw_def
      truthy_def truthyStr_def count_eval double_eval)

section \<open>Claim C3: draws whose minAmount is 0\<close>

text \<open>
  Claim C3, amended. The loop does not exclude a draw whose \<open>minAmount\<close> is 0: for
  a positive donation the computed count \<open>floor(v / 0)\<close> is \<open>+Infinity\<close>, the test
  \<open>entries <= 0\<close> lets it pass, and a draw that is eligible otherwise (with
  \<open>maxEntries\<close> absent or nonzero) is granted its whole remaining capacity, or
  \<open>+Infinity\<close> entries when it has no \<open>maxEntries\<close>.
\<close>

theorem zero_minAmount_grants:
  assumes "0 < usdValue" and "minAmount d = 0" and "maxEntries d \<noteq> Some 0"
  shows "granted usdValue sel vip roles drawId d =
           (if eligible usdValue sel vip roles drawId d then clampToCapacity PInf d else Fin 0)"
  using granted_eq [OF assms(1) _ assms(3), of sel vip roles drawId] assms(1,2)
  by (simp add: floorEntries_def)

text \<open>
  The theorem at a donation of 10 USD and a draw created with \<open>min_amount = 0\<close>:
  100 entries when \<open>max_entries = 100\<close>, \<open>+Infinity\<close> without \<open>maxEntries\<close>.
\<close>

theorem zero_minAmount_grants_witness:
  "granted 10 None None [] ''draw_1'' (newDraw 0 None 100 None None) = Fin 100
   \<and> granted 10 None None [] ''draw_1'' ((newDraw 0 None 100 None None)\<lparr>maxEntries := None\<rparr>) = PInf"
proof -
  have v: "(0::rat) < 10" by simp
  have a: "minAmount (newDraw 0 None 100 None None) = 0"
          "maxEntries (newDraw 0 None 100 None None) \<noteq> Some 0"
    by (simp_all add: newDraw_def)
  have b: "minAmount ((newDraw 0 None 100 None None)\<lparr>maxEntries := None\<rparr>) = 0"
          "maxEntries ((newDraw 0 None 100 None None)\<lparr>maxEntries := None\<rparr>) \<noteq> Some 0"
    by (simp_all add: newDraw_def)
  from zero_minAmount_grants [OF v a, of None None "[]" "''draw_1''"]
  have 1: "granted 10 None None [] ''draw_1'' (newDraw 0 None 100 None None) = Fin 100"
    by (simp add: eligible_def clampToCapacity_def newDraw_def truthy_def truthyStr_def
        count_eval)
  from zero_minAmount_grants [OF v b, of None None "[]" "''draw_1''"]
  have 2: "granted 10 None None [] ''draw_1''
             ((newDraw 0 None 100 None None)\<lparr>maxEntries := None\<rparr>) = PInf"
    by (simp add: eligible_def clampToCapacity_def newDraw_def truthy_def truthyStr_def
        count_eval)
  from 1 2 show ?thesis by simp
qed

text \<open>
  Claim C3 as stated fails: a draw with \<open>minAmount = 0\<close> is granted 100 entries.
\<close>

theorem zero_minAmount_not_excluded_counterexample:
  "minAmount (newDraw 0 None 100 None None) = 0
   \<and> granted 10 None None [] ''draw_1'' (newDraw 0 None 100 None None) = Fin 100"
  by (simp add: granted_def entriesToAdd_def newDraw_def truthy_def
      truthyStr_def count_eval Let_def)

section \<open>Configuration, database and guild members\<close>

text \<open>An entry of \<open>config.globalBlacklist.users\<close>, as \<open>handleBlacklist\<close> stores it.\<close>

record blacklistEntry =
  b_id :: string
  b_username :: string
  b_reason :: string
  b_addedBy :: string
  b_addedAt :: int

record blacklist =
  bl_users :: "blacklistEntry list"
  bl_roles :: "string list"

text \<open>
  An element of \<open>config.allowedRecipients\<close>: a string, or a value of another type
  (a corrupted entry, which \<open>typeof allowed !== 'string'\<close> filters out).
\<close>

datatype jsval = Str string | NotString

text \<open>A donor tier: the Discord role and the range of cumulative donations it stands for.\<close>

record donorRole =
  roleId :: string
  roleMinAmount :: rat
  roleMaxAmount :: "rat option"

text \<open>
  The configuration. An absent \<open>db.config\<close> is the configuration with every field
  absent (the code reads it through \<open>db.config?.\<close>).
\<close>

record config =
  allowedRecipients :: "jsval list option"
  acceptedCryptocurrencies :: "string list option"
  vipRoleId :: "string option"
  donorRoles :: "(string \<times> donorRole) list"
  globalBlacklist :: "blacklist option"

record database =
  users :: "(string \<times> user) list"
  donationDraws :: "(string \<times> draw) list"
  config :: config

text \<open>A guild member as the handlers see it: the user and the role cache.\<close>

record member =
  memberId :: string
  username :: string
  displayName :: string
  memberRoles :: "string list"

section \<open>handleAssignEntries: manual entry assignment\<close>

datatype assignReply =
  AssignDrawNotFound | AssignInactive | AssignNotPositive | AssignNoTarget
  | AssignFetchError | AssignNoUsers | AssignNoSpace | EntriesAssigned nat

text \<open>
  The loop \<open>for (const targetUser of targetUsers)\<close>: each target gets \<open>n\<close>
  entries in the draw's ledger and in the user's own record, which is created when the
  user is new.
\<close>

fun assignLoop ::
  "string \<Rightarrow> int \<Rightarrow> string list \<Rightarrow> draw \<Rightarrow> (string \<times> user) list \<Rightarrow> draw \<times> (string \<times> user) list" where
  "assignLoop drawId n [] d us = (d, us)"
| "assignLoop drawId n (t # ts) d us =
     (let u = (case objGet us t of None \<Rightarrow> newUser | Some u \<Rightarrow> u);
          d1 = d\<lparr>entries := addCount t (Fin n) (entries d)\<rparr>;
          us1 = objSet t (u\<lparr>userEntries := addCount drawId (Fin n) (userEntries u)\<rparr>) us
      in assignLoop drawId n ts d1 us1)"

text \<open>
  The handler. \<open>userOpt\<close> and \<open>roleOpt\<close> are the command's \<open>user\<close> and
  \<open>role\<close> options, \<open>fetched\<close> the result of \<open>guild.members.fetch()\<close>
  (\<open>None\<close> when it throws), \<open>n\<close> the \<open>entries\<close> option. The comparison
  \<open>currentEntries + totalNewEntries > draw.maxEntries\<close> is false when
  \<open>maxEntries\<close> is absent.
\<close>

definition handleAssignEntries ::
  "string option \<Rightarrow> string option \<Rightarrow> member list option \<Rightarrow> string \<Rightarrow> int \<Rightarrow> database \<Rightarrow>
   assignReply \<times> database" where
  "handleAssignEntries userOpt roleOpt fetched drawId n db =
     (case objGet (donationDraws db) drawId of
        None \<Rightarrow> (AssignDrawNotFound, db)
      | Some d \<Rightarrow>
          if \<not> active d then (AssignInactive, db)
          else if n \<le> 0 then (AssignNotPositive, db)
          else if userOpt = None \<and> roleOpt = None then (AssignNoTarget, db)
          else
            (case (case userOpt of
                     Some uid \<Rightarrow> Some [uid]
                   | None \<Rightarrow>
                       (case fetched of
                          None \<Rightarrow> None
                        | Some ms \<Rightarrow>
                            Some (map memberId
                              (filter (\<lambda>m. the roleOpt \<in> set (memberRoles m)) ms)))) of
               None \<Rightarrow> (AssignFetchError, db)
             | Some targetUsers \<Rightarrow>
                 if targetUsers = [] then (AssignNoUsers, db)
                 else
                   let currentEntries = sumEntries (entries d);
                       totalNewEntries = roundInt (int (length targetUsers) * n)
                   in if (case maxEntries d of
                            None \<Rightarrow> False
                          | Some M \<Rightarrow> js_gt (js_add currentEntries totalNewEntries) M)
                      then (AssignNoSpace, db)
                      else
                        let (d', us') = assignLoop drawId n targetUsers d (users db)
                        in (EntriesAssigned (length targetUsers),
                            db\<lparr>users := us', donationDraws := objSet drawId d' (donationDraws db)\<rparr>)))"

section \<open>Capacity of a draw\<close>

text \<open>\<open>x <= m\<close> for an integer \<open>m\<close>\<close>

fun js_le :: "jsnum \<Rightarrow> int \<Rightarrow> bool" where
  "js_le (Fin a) m = (a \<le> m)"
| "js_le NInf m = True"
| "js_le _ m = False"

text \<open>
  A ledger as the code builds it: every count is a non-negative integer or
  \<open>+Infinity\<close>.
\<close>

definition nonnegLedger :: "(string \<times> jsnum) list \<Rightarrow> bool" where
  "nonnegLedger ledger = list_all js_nonneg (map snd ledger)"

lemma objGet_objSet: "objGet (objSet k v ps) k' = (if k' = k then Some v else objGet ps k')"
  by (induction ps) auto

lemma roundInt_nonneg:
  assumes "0 \<le> k"
  shows "roundInt k = PInf \<or> (\<exists>r. roundInt k = Fin r \<and> 0 \<le> r)"
proof (cases "k = 0")
  case True
  then show ?thesis by (simp add: roundInt_small)
next
  case False
  with assms have "0 < k" by simp
  from roundInt_pos [OF this] show ?thesis by auto
qed

lemma foldl_nonneg:
  "list_all js_nonneg cs \<Longrightarrow> 0 \<le> a \<Longrightarrow> js_nonneg (foldl js_add (Fin a) cs)"
proof (induction cs arbitrary: a)
  case Nil
  then show ?case by simp
next
  case (Cons c cs)
  from Cons.prems have nn: "js_nonneg c" "list_all js_nonneg cs" by simp_all
  show ?case
  proof (cases c)
    case (Fin n)
    with nn Cons.prems(2) have "0 \<le> a + n" by simp
    from roundInt_nonneg [OF this]
    consider "roundInt (a + n) = PInf" | r where "roundInt (a + n) = Fin r" "0 \<le> r" by blast
    then show ?thesis
    proof cases
      case 1
      with Fin foldl_PInf [OF nn(2)] show ?thesis by simp
    next
      case 2
      with Fin Cons.IH [OF nn(2) 2(2)] show ?thesis by simp
    qed
  next
    case PInf
    with foldl_PInf [OF nn(2)] show ?thesis by simp
  qed (use nn in simp_all)
qed

lemma sumEntries_nonneg: "nonnegLedger l \<Longrightarrow> js_nonneg (sumEntries l)"
  unfolding nonnegLedger_def sumEntries_def using foldl_nonneg [of "map snd l" 0] by simp

lemma exactTotal_nonnegLedger: "exactTotal l = Some s \<Longrightarrow> nonnegLedger l"
  unfolding nonnegLedger_def
  by (induction l arbitrary: s rule: exactTotal.induct) (auto split: if_splits)

text \<open>
  The donation loop, for a positive donation: a draw whose \<open>maxEntries\<close> is a
  nonzero number (below \<open>2 ^ 53\<close>, as an integer option of a slash command is)
  never goes beyond it, and a draw that has reached it is skipped.
\<close>

lemma entriesToAdd_within_capacity:
  assumes "entriesToAdd v sel vip roles k d = Some n" "maxEntries d = Some M" "M \<noteq> 0"
    and "M < 9007199254740992" "nonnegLedger (entries d)" "0 < v"
  shows "\<exists>c n'. sumEntries (entries d) = Fin c \<and> exactTotal (entries d) = Some c \<and>
                n = Fin n' \<and> 1 \<le> n' \<and> c + n' \<le> M"
proof -
  from assms(2,3) have t: "truthy (maxEntries d)" by (simp add: truthy_def)
  define n0 where "n0 = floorEntries v (minAmount d)"
  have shape: "n0 = PInf \<or> n0 = NInf \<or> (\<exists>a. n0 = Fin a)"
    unfolding n0_def floorEntries_def using assms(6) by (auto split: jsdouble.splits)
  from assms(1) t have pos: "\<not> js_le_zero n0"
    and ge: "\<not> js_ge (sumEntries (entries d)) M"
    and n: "n = js_min n0 (js_sub M (sumEntries (entries d)))"
    unfolding entriesToAdd_def Let_def n0_def using assms(2) by (auto split: if_splits)
  from sumEntries_nonneg [OF assms(5)] ge obtain c where c: "sumEntries (entries d) = Fin c" "0 \<le> c" "c < M"
    by (cases "sumEntries (entries d)") auto
  from c assms(4) have "c < 9007199254740992" by simp
  from sumEntries_exact_conv [OF c(1) this] assms(5) have ex: "exactTotal (entries d) = Some c"
    by (simp add: nonnegLedger_def)
  from c assms(4) have sub: "js_sub M (Fin c) = Fin (M - c)" by (simp add: roundInt_small)
  from pos shape consider "n0 = PInf" | a where "n0 = Fin a" "1 \<le> a" by auto
  then have "\<exists>n'. n = Fin n' \<and> 1 \<le> n' \<and> n' \<le> M - c"
  proof cases
    case 1
    with n c sub show ?thesis by simp
  next
    case 2
    with n c sub show ?thesis by (simp add: min_def)
  qed
  with c ex show ?thesis by auto
qed

lemma full_draw_skipped:
  assumes "maxEntries d = Some M" "M \<noteq> 0" "js_ge (sumEntries (entries d)) M"
  shows "entriesToAdd v sel vip roles k d = None"
  using assms unfolding entriesToAdd_def Let_def truthy_def by simp

lemma allocate_keeps_capacity:
  assumes "(k, d') \<in> set (fst (allocate senderId v sel vip roles draws u acc))"
    and "maxEntries d' = Some M" "M \<noteq> 0" "M < 9007199254740992"
    and "\<forall>(k, d) \<in> set draws. nonnegLedger (entries d)" "0 < v"
  shows "\<exists>d. (k, d) \<in> set draws \<and> maxEntries d = Some M \<and> nonnegLedger (entries d') \<and>
             (js_le (sumEntries (entries d)) M \<longrightarrow> js_le (sumEntries (entries d')) M) \<and>
             (js_ge (sumEntries (entries d)) M \<longrightarrow> d' = d)"
proof -
  from assms(1) obtain d where d: "(k, d) \<in> set draws"
    and d': "d' = (case entriesToAdd v sel vip roles k d of
                        None \<Rightarrow> d
                      | Some n \<Rightarrow> d\<lparr>entries := addCount senderId n (entries d)\<rparr>)"
    unfolding allocate_draws by auto
  from d' assms(2) have M: "maxEntries d = Some M" by (auto split: option.splits)
  from d assms(5) have nn: "nonnegLedger (entries d)" by auto
  have keep: "nonnegLedger (entries d') \<and> (js_le (sumEntries (entries d)) M \<longrightarrow> js_le (sumEntries (entries d')) M)"
  proof (cases "entriesToAdd v sel vip roles k d")
    case None
    with d' nn show ?thesis by simp
  next
    case (Some n)
    from entriesToAdd_within_capacity [OF Some M assms(3,4) nn assms(6)]
    obtain c n' where c: "exactTotal (entries d) = Some c" "n = Fin n'" "1 \<le> n'" "c + n' \<le> M"
      by blast
    from c assms(4) have "0 \<le> n'" "c + n' < 9007199254740992" by simp_all
    from exactTotal_addCount [OF c(1) this]
    have ex: "exactTotal (addCount senderId (Fin n') (entries d)) = Some (c + n')" .
    from sumEntries_exact [OF ex] c assms(4)
    have "sumEntries (addCount senderId (Fin n') (entries d)) = Fin (c + n')" by simp
    with Some d' c ex exactTotal_nonnegLedger [OF ex] show ?thesis by simp
  qed
  moreover have "js_ge (sumEntries (entries d)) M \<longrightarrow> d' = d"
    using d' full_draw_skipped [OF M assms(3)] by simp
  ultimately show ?thesis using d M by blast
qed

lemma assignLoop_maxEntries:
  "maxEntries (fst (assignLoop drawId n ts d us)) = maxEntries d"
  by (induction ts arbitrary: d us) (simp_all add: Let_def)

lemma assignLoop_exact:
  assumes "exactTotal (entries d) = Some c" "0 \<le> n" "c + int (length ts) * n < 9007199254740992"
  shows "exactTotal (entries (fst (assignLoop drawId n ts d us))) = Some (c + int (length ts) * n)"
  using assms
proof (induction ts arbitrary: d us c)
  case Nil
  then show ?case by simp
next
  case (Cons t ts)
  from Cons.prems(2) have "0 \<le> int (length ts) * n" by simp
  with Cons.prems(3) have small: "c + n < 9007199254740992"
    by (simp add: algebra_simps)
  from exactTotal_addCount [OF Cons.prems(1,2) small]
  have ex: "exactTotal (addCount t (Fin n) (entries d)) = Some (c + n)" .
  have "c + n + int (length ts) * n < 9007199254740992"
    using Cons.prems(3) by (simp add: algebra_simps)
  from Cons.IH [of "d\<lparr>entries := addCount t (Fin n) (entries d)\<rparr>" "c + n", simplified, OF ex Cons.prems(2) this]
  show ?case by (simp add: Let_def algebra_simps)
qed

lemma not_js_gt_small:
  assumes "\<not> js_gt (js_add (Fin c) (roundInt T)) M" "0 \<le> c" "0 < T" "M < 9007199254740992"
  shows "c + T \<le> M"
proof (cases "T < 9007199254740992")
  case True
  with assms(3) have T: "roundInt T = Fin T" by (simp add: roundInt_small)
  show ?thesis
  proof (cases "c + T < 9007199254740992")
    case True
    with assms(2,3) have "roundInt (c + T) = Fin (c + T)" by (simp add: roundInt_small)
    with assms(1) T show ?thesis by simp
  next
    case False
    then have "9007199254740992 \<le> c + T" by simp
    from roundInt_large [OF this] assms(1,4) T show ?thesis by auto
  qed
next
  case False
  then have "9007199254740992 \<le> T" by simp
  from roundInt_large [OF this]
  consider "roundInt T = PInf" | r where "roundInt T = Fin r" "9007199254740992 \<le> r" by blast
  then show ?thesis
  proof cases
    case 1
    with assms(1) show ?thesis by simp
  next
    case 2
    with assms(2) have "9007199254740992 \<le> c + r" by simp
    from roundInt_large [OF this] assms(1,4) 2 show ?thesis by auto
  qed
qed

text \<open>
  Manual assignment keeps the ledger within \<open>maxEntries\<close>, whatever its value below
  \<open>2 ^ 53\<close> (0 included).
\<close>

lemma handleAssignEntries_keeps_capacity:
  assumes "objGet (donationDraws db) drawId = Some d" "maxEntries d = Some M"
    and "M < 9007199254740992" "nonnegLedger (entries d)"
    and "js_le (sumEntries (entries d)) M"
  shows "\<exists>d'. objGet (donationDraws (snd (handleAssignEntries userOpt roleOpt fetched drawId n db))) drawId
                 = Some d' \<and> maxEntries d' = Some M \<and> nonnegLedger (entries d')
               \<and> js_le (sumEntries (entries d')) M"
proof -
  from sumEntries_nonneg [OF assms(4)] assms(5)
  obtain c where c: "sumEntries (entries d) = Fin c" "0 \<le> c" "c \<le> M"
    by (cases "sumEntries (entries d)") auto
  from c assms(3) have "c < 9007199254740992" by simp
  from sumEntries_exact_conv [OF c(1) this] assms(4) have ex: "exactTotal (entries d) = Some c"
    by (simp add: nonnegLedger_def)
  have loop: "maxEntries d' = Some M \<and> nonnegLedger (entries d') \<and> js_le (sumEntries (entries d')) M"
    if run: "assignLoop drawId n ts d (users db) = (d', us')" and n: "\<not> n \<le> 0" and ts: "ts \<noteq> []"
      and fits: "\<not> js_gt (js_add (sumEntries (entries d)) (roundInt (int (length ts) * n))) M"
    for ts d' us'
  proof -
    from ts have "0 < length ts" by simp
    with n have T: "0 < int (length ts) * n" by simp
    from not_js_gt_small [OF fits [unfolded c(1)] c(2) T assms(3)]
    have le: "c + int (length ts) * n \<le> M" .
    with assms(3) have small: "c + int (length ts) * n < 9007199254740992" by simp
    from n have "0 \<le> n" by simp
    from assignLoop_exact [OF ex this small, of drawId "users db"] run
    have ex': "exactTotal (entries d') = Some (c + int (length ts) * n)" by simp
    from sumEntries_exact [OF ex' small] le have "js_le (sumEntries (entries d')) M" by simp
    moreover from assignLoop_maxEntries [of drawId n ts d "users db"] run assms(2)
    have "maxEntries d' = Some M" by simp
    ultimately show ?thesis using exactTotal_nonnegLedger [OF ex'] by simp
  qed
  show ?thesis
    unfolding handleAssignEntries_def Let_def
    using assms loop
    by (auto simp: objGet_objSet simp del: assignLoop.simps split: option.splits prod.splits)
qed

text \<open>The configuration of a guild that has set nothing.\<close>

definition emptyConfig :: config where
  "emptyConfig =
     \<lparr>allowedRecipients = None, acceptedCryptocurrencies = None, vipRoleId = None,
      donorRoles = [], globalBlacklist = None\<rparr>"

section \<open>Claim C2: no draw exceeds maxEntries\<close>

text \<open>
  Claim C2. The invariant holds for manual assignment and, in the donation loop, for
  every draw whose \<open>maxEntries\<close> is nonzero (the lemmas above, for a positive
  donation, ledgers of non-negative counts and a \<open>maxEntries\<close> below
  \<open>2 ^ 53\<close>). It fails in the
  donation loop for a draw with \<open>maxEntries = 0\<close>: \<open>draw.maxEntries && ...\<close> and
  \<open>draw.maxEntries ? ... : entries\<close> read the 0 as "no limit". Here a draw created
  with \<open>max_entries = 0\<close> and an empty ledger is at capacity, yet a donation of 10 USD
  writes 2 entries to its ledger, whose sum then exceeds \<open>maxEntries\<close>; manual
  assignment of a single entry to the same draw is refused.
\<close>

theorem zero_maxEntries_is_unlimited:
  "maxEntries (newDraw 5 None 0 None None) = Some 0
   \<and> sumEntries (entries (newDraw 5 None 0 None None)) = Fin 0
   \<and> fst (allocate ''u1'' 10 None None [] [(''draw_1'', newDraw 5 None 0 None None)] newUser (Fin 0))
       = [(''draw_1'', (newDraw 5 None 0 None None)\<lparr>entries := [(''u1'', Fin 2)]\<rparr>)]
   \<and> sumEntries [(''u1'', Fin 2)] = Fin 2
   \<and> handleAssignEntries (Some ''u1'') None None ''draw_1'' 1
        \<lparr>users = [], donationDraws = [(''draw_1'', newDraw 5 None 0 None None)], config = emptyConfig\<rparr>
       = (AssignNoSpace,
          \<lparr>users = [], donationDraws = [(''draw_1'', newDraw 5 None 0 None None)], config = emptyConfig\<rparr>)"
  by (simp add: entriesToAdd_def newDraw_def truthy_def truthyStr_def count_eval double_eval
      handleAssignEntries_def)

section \<open>handleSelectWinner\<close>

datatype winnerReply =
  DrawNotFound | DrawNotActive | NoEntries | RangeErrorThrown | WinnerSelected string

text \<open>
  The number of times \<open>for (let i = 0; i < entryCount; i++)\<close> runs its body when
  nothing stops it: \<open>None\<close> when the loop does not end by itself, which is the case
  for \<open>+Infinity\<close> and for a count above \<open>2 ^ 53\<close>, where \<open>i++\<close> no longer
  changes \<open>i\<close>.
\<close>

fun pushes :: "jsnum \<Rightarrow> nat option" where
  "pushes (Fin c) = (if c \<le> 9007199254740992 then Some (nat c) else None)"
| "pushes PInf = None"
| "pushes _ = Some 0"

text \<open>An array holds at most \<open>2 ^ 32 - 1\<close> elements.\<close>

definition arrayLimit :: nat where
  "arrayLimit = 4294967295"

text \<open>
  The array \<open>weightedEntries\<close>, filled from \<open>acc\<close>: each user id repeated
  \<open>entryCount\<close> times (not at all for a count below 1). \<open>push\<close> on an array of
  \<open>2 ^ 32 - 1\<close> elements throws a \<open>RangeError\<close>: the result is then \<open>None\<close>.
\<close>

fun weightedEntries :: "(string \<times> jsnum) list \<Rightarrow> string list \<Rightarrow> string list option" where
  "weightedEntries [] acc = Some acc"
| "weightedEntries ((userId, entryCount) # rest) acc =
     (case pushes entryCount of
        None \<Rightarrow> None
      | Some n \<Rightarrow>
          if arrayLimit < length acc + n then None
          else weightedEntries rest (acc @ replicate n userId))"

text \<open>
  The handler. \<open>random\<close> is the value of \<open>Math.random()\<close>, \<open>now\<close> of
  \<open>Date.now()\<close>, \<open>adminId\<close> the invoking user. The \<open>RangeError\<close> of
  \<open>push\<close> leaves the handler before it has written anything (the \<open>catch\<close> of
  \<open>execute\<close> reports it). An index outside the array reads \<open>undefined\<close>: the
  draw's \<open>winner\<close> is then absent and the wins are counted under the property name
  \<open>undefined\<close>.
\<close>

definition handleSelectWinner ::
  "rat \<Rightarrow> int \<Rightarrow> string \<Rightarrow> string \<Rightarrow> database \<Rightarrow> winnerReply \<times> database" where
  "handleSelectWinner random now adminId drawId db =
     (case objGet (donationDraws db) drawId of
        None \<Rightarrow> (DrawNotFound, db)
      | Some d \<Rightarrow>
          if \<not> active d then (DrawNotActive, db)
          else if sumEntries (entries d) = Fin 0 then (NoEntries, db)
          else
            (case weightedEntries (entries d) [] of
               None \<Rightarrow> (RangeErrorThrown, db)
             | Some ws \<Rightarrow>
                 let randomIndex = (case toDouble (random * of_nat (length ws)) of
                                      Dbl q \<Rightarrow> Some \<lfloor>q\<rfloor>
                                    | _ \<Rightarrow> None);
                     winnerId = (case randomIndex of
                                   None \<Rightarrow> None
                                 | Some i \<Rightarrow> if 0 \<le> i \<and> nat i < length ws then Some (ws ! nat i) else None);
                     winnerKey = (case winnerId of None \<Rightarrow> ''undefined'' | Some w \<Rightarrow> w);
                     d' = d\<lparr>active := False, winner := winnerId,
                            winnerSelectedAt := Some now, selectedBy := Some adminId\<rparr>;
                     u = (case objGet (users db) winnerKey of None \<Rightarrow> newUser | Some u \<Rightarrow> u)
                 in (WinnerSelected winnerKey,
                     db\<lparr>users := objSet winnerKey
                                   (u\<lparr>wins := js_add (if js_falsy (wins u) then Fin 0 else wins u) (Fin 1)\<rparr>)
                                   (users db),
                        donationDraws := objSet drawId d' (donationDraws db)\<rparr>)))"

text \<open>\<open>db.users[userId].wins\<close>, 0 for a user without a record.\<close>

definition winsOf :: "database \<Rightarrow> string \<Rightarrow> jsnum" where
  "winsOf db userId = (case objGet (users db) userId of None \<Rightarrow> Fin 0 | Some u \<Rightarrow> wins u)"

text \<open>
  \<open>Math.floor(Math.random() * length)\<close> is an index of the array: the value of
  \<open>Math.random()\<close> is a double below 1, so at most \<open>1 - 2 ^ -53\<close>, and rounding
  the product cannot reach \<open>length\<close>.
\<close>

lemma randomIndex_in_range:
  assumes "0 \<le> r" "r \<le> 1 - 1 / 2 ^ 53" "0 < n" "n \<le> 4294967295"
  shows "\<exists>q. toDouble (r * of_nat n) = Dbl q \<and> 0 \<le> \<lfloor>q\<rfloor> \<and> nat \<lfloor>q\<rfloor> < n"
proof (cases "r * of_nat n = 0")
  case True
  with assms(3) show ?thesis by (simp add: toDouble_def)
next
  case False
  define x where "x = r * of_nat n"
  from False assms(1,3) have x: "0 < x" unfolding x_def
    by (metis less_eq_rat_def mult_eq_0_iff of_nat_0_less_iff zero_less_mult_iff)
  have n1: "(1::rat) \<le> of_nat n" using assms(3) by simp
  have nlim: "(of_nat n :: rat) \<le> 4294967295" using assms(4)
    by (metis of_nat_le_iff of_nat_numeral)
  have xle: "x \<le> of_nat n * (1 - 1 / 2 ^ 53)"
    unfolding x_def using assms(2,3) by (simp add: mult.commute)
  have bound: "x + pow2 (max (binaryExponent x) (- 1022) - 52) / 2 < of_nat n"
  proof (cases "- 1022 \<le> binaryExponent x")
    case True
    from halfUlp_normal [OF x True]
    have "x + pow2 (max (binaryExponent x) (- 1022) - 52) / 2 \<le> x * (1 + 1 / 2 ^ 53)"
      by (simp add: algebra_simps)
    also have "\<dots> \<le> of_nat n * (1 - 1 / 2 ^ 53) * (1 + 1 / 2 ^ 53)"
      using xle by (intro mult_right_mono) simp_all
    also have "\<dots> = of_nat n * (1 - 1 / 2 ^ 106)" by (simp add: algebra_simps)
    also have "\<dots> < of_nat n" using assms(3) by simp
    finally show ?thesis .
  next
    case False
    then have "binaryExponent x + 1 \<le> - 1022" by simp
    then have "pow2 (binaryExponent x + 1) \<le> pow2 (- 1022)" by (rule pow2_mono)
    with binaryExponent_gt [OF x] have "x < pow2 (- 1022)" by simp
    moreover from False have "pow2 (max (binaryExponent x) (- 1022) - 52) = pow2 (- 1074)"
      by (simp add: max_def)
    moreover have "pow2 (- 1022) + pow2 (- 1074) / 2 < (1::rat)" by (simp add: pow2_def)
    ultimately have "x + pow2 (max (binaryExponent x) (- 1022) - 52) / 2 < 1" by simp
    with n1 show ?thesis by simp
  qed
  have "(4294967295::rat) < pow2 1024" by (simp add: pow2_def)
  with bound nlim have "x + pow2 (max (binaryExponent x) (- 1022) - 52) / 2 < pow2 1024" by simp
  from roundPositive_upper [OF x this] obtain q where
    q: "roundPositive x = Dbl q" "0 \<le> q" "q \<le> x + pow2 (max (binaryExponent x) (- 1022) - 52) / 2"
    by blast
  from q(3) bound have "q < of_nat n" by simp
  then have "\<lfloor>q\<rfloor> < int n" by (simp add: floor_less_iff)
  moreover from q(2) have "0 \<le> \<lfloor>q\<rfloor>" by simp
  ultimately have "0 \<le> \<lfloor>q\<rfloor> \<and> nat \<lfloor>q\<rfloor> < n" by linarith
  with q(1) x show ?thesis by (auto simp: toDouble_def x_def)
qed

lemma weightedEntries_exact:
  assumes "exactTotal l = Some s" "int (length acc) + s \<le> int arrayLimit"
  shows "\<exists>ws. weightedEntries l acc = Some (acc @ ws) \<and> int (length ws) = s \<and>
              (\<forall>w \<in> set ws. \<exists>c. (w, Fin c) \<in> set l \<and> 1 \<le> c)"
  using assms
proof (induction l arbitrary: s acc rule: exactTotal.induct)
  case 1
  then show ?case by simp
next
  case (2 k c ps)
  from "2.prems"(1) obtain s' where s': "exactTotal ps = Some s'" "s = c + s'" "0 \<le> c"
    by (auto split: if_splits)
  from exactTotal_nonneg [OF s'(1)] have s0: "0 \<le> s'" .
  from "2.prems"(2) s' s0 have c: "c \<le> 9007199254740992" "\<not> arrayLimit < length acc + nat c"
    by (simp_all add: arrayLimit_def)
  have "int (length (acc @ replicate (nat c) k)) + s' \<le> int arrayLimit"
    using "2.prems"(2) s' by simp
  from "2.IH" [OF _ s'(1) this] s'(3) obtain ws where
    ws: "weightedEntries ps (acc @ replicate (nat c) k) = Some ((acc @ replicate (nat c) k) @ ws)"
        "int (length ws) = s'" "\<forall>w \<in> set ws. \<exists>c. (w, Fin c) \<in> set ps \<and> 1 \<le> c"
    by auto
  have run: "weightedEntries ((k, Fin c) # ps) acc = Some (acc @ (replicate (nat c) k @ ws))"
    using c ws(1) by simp
  have len: "int (length (replicate (nat c) k @ ws)) = s" using ws(2) s' by simp
  have mem: "\<forall>w \<in> set (replicate (nat c) k @ ws). \<exists>c'. (w, Fin c') \<in> set ((k, Fin c) # ps) \<and> 1 \<le> c'"
  proof
    fix w assume "w \<in> set (replicate (nat c) k @ ws)"
    then consider "w = k" "0 < nat c" | "w \<in> set ws"
      by (auto simp: set_replicate_conv_if split: if_splits)
    then show "\<exists>c'. (w, Fin c') \<in> set ((k, Fin c) # ps) \<and> 1 \<le> c'"
    proof cases
      case 1
      then have "(w, Fin c) \<in> set ((k, Fin c) # ps) \<and> 1 \<le> c" by simp
      then show ?thesis by blast
    next
      case 2
      with ws(3) show ?thesis by auto
    qed
  qed
  from run len mem show ?case by blast
qed simp_all

lemma weightedEntries_overflow:
  assumes "exactTotal l = Some s" "int arrayLimit < int (length acc) + s" "length acc \<le> arrayLimit"
  shows "weightedEntries l acc = None"
  using assms
proof (induction l arbitrary: s acc rule: exactTotal.induct)
  case 1
  then show ?case by simp
next
  case (2 k c ps)
  from "2.prems"(1) obtain s' where s': "exactTotal ps = Some s'" "s = c + s'" "0 \<le> c"
    by (auto split: if_splits)
  show ?case
  proof (cases "c \<le> 9007199254740992 \<and> \<not> arrayLimit < length acc + nat c")
    case False
    then show ?thesis by auto
  next
    case True
    then have len: "length (acc @ replicate (nat c) k) \<le> arrayLimit" by simp
    have "int arrayLimit < int (length (acc @ replicate (nat c) k)) + s'"
      using "2.prems"(2) s' by simp
    from "2.IH" [OF _ s'(1) this len] s'(3) True show ?thesis by simp
  qed
qed simp_all

lemma weightedEntries_infinite:
  assumes "nonnegLedger l" "exactTotal l = None"
  shows "weightedEntries l acc = None"
  using assms
proof (induction l arbitrary: acc)
  case Nil
  then show ?case by simp
next
  case (Cons p ps)
  obtain k c where p: "p = (k, c)" by (cases p)
  from Cons.prems(1) p have nn: "js_nonneg c" "nonnegLedger ps" by (simp_all add: nonnegLedger_def)
  show ?case
  proof (cases c)
    case (Fin n)
    with nn have "0 \<le> n" by simp
    with Cons.prems(2) p Fin have "exactTotal ps = None" by simp
    from Cons.IH [OF nn(2) this] p Fin show ?thesis by simp
  next
    case PInf
    with p show ?thesis by simp
  qed (use nn in simp_all)
qed

text \<open>
  For a ledger of non-negative counts the total decides how the array is filled: within
  the limit it has exactly \<open>total\<close> elements, each a user with a count of at least 1;
  beyond the limit \<open>push\<close> throws.
\<close>

lemma weightedEntries_within_limit:
  assumes "nonnegLedger l" "sumEntries l = Fin t" "t \<le> 4294967295"
  shows "\<exists>ws. weightedEntries l [] = Some ws \<and> int (length ws) = t \<and>
              (\<forall>w \<in> set ws. \<exists>c. (w, Fin c) \<in> set l \<and> 1 \<le> c)"
proof -
  from assms(3) have "t < 9007199254740992" by simp
  from sumEntries_exact_conv [OF assms(2) this] assms(1) have "exactTotal l = Some t"
    by (simp add: nonnegLedger_def)
  from weightedEntries_exact [OF this, of "[]"] assms(3) show ?thesis
    by (simp add: arrayLimit_def)
qed

lemma weightedEntries_beyond_limit:
  assumes "nonnegLedger l" "sumEntries l = PInf \<or> (\<exists>t. sumEntries l = Fin t \<and> 4294967295 < t)"
  shows "weightedEntries l [] = None"
proof (cases "exactTotal l")
  case None
  from weightedEntries_infinite [OF assms(1) None] show ?thesis .
next
  case (Some s)
  have "4294967295 < s"
  proof (rule ccontr)
    assume "\<not> 4294967295 < s"
    then have "s < 9007199254740992" "s \<le> 4294967295" by simp_all
    from sumEntries_exact [OF Some this(1)] this(2) assms(2) show False by auto
  qed
  then have "int arrayLimit < int (length ([]::string list)) + s" by (simp add: arrayLimit_def)
  from weightedEntries_overflow [OF Some this] show ?thesis by simp
qed

lemma objGet_distinct:
  "distinct (map fst ps) \<Longrightarrow> (k, v) \<in> set ps \<Longrightarrow> objGet ps k = Some v"
  by (induction ps) (auto simp: rev_image_eqI)

section \<open>Claim C8: winner selection\<close>

text \<open>
  Claim C8, amended. A draw that does not exist or is not active is refused, whatever
  its ledger, and nothing changes. For an active draw: when the total entry count is
  zero, \<open>handleSelectWinner\<close> reports no entries and leaves the database unchanged;
  when the counts are non-negative and their total is positive and at most
  \<open>2 ^ 32 - 1\<close> (the most an array can hold), it sets the draw inactive, records as
  winner a user whose entry count in that draw is at least 1, and increments that user's
  wins by exactly 1 (for a wins counter below \<open>2 ^ 53 - 1\<close>, where adding 1 is
  exact), leaving every other user and every other draw unchanged; when the total is
  larger or infinite, filling the weighted array throws a \<open>RangeError\<close> before
  anything is written: no winner is recorded and the draw stays active.
  (\<open>random\<close> is a value of \<open>Math.random()\<close>, a double of \<open>[0, 1)\<close>; the
  ledger is a JavaScript object, so its keys are distinct.)
\<close>

theorem selectWinner_outcomes:
  "(objGet (donationDraws db) drawId = None \<longrightarrow>
      handleSelectWinner random now adminId drawId db = (DrawNotFound, db))
   \<and> (objGet (donationDraws db) drawId = Some d \<and> \<not> active d \<longrightarrow>
      handleSelectWinner random now adminId drawId db = (DrawNotActive, db))
   \<and> (objGet (donationDraws db) drawId = Some d \<and> active d \<and> sumEntries (entries d) = Fin 0 \<longrightarrow>
      handleSelectWinner random now adminId drawId db = (NoEntries, db))
   \<and> (objGet (donationDraws db) drawId = Some d \<and> active d \<and> nonnegLedger (entries d)
        \<and> (sumEntries (entries d) = PInf \<or> (\<exists>t. sumEntries (entries d) = Fin t \<and> 4294967295 < t)) \<longrightarrow>
      handleSelectWinner random now adminId drawId db = (RangeErrorThrown, db))
   \<and> (objGet (donationDraws db) drawId = Some d \<and> active d \<and> nonnegLedger (entries d)
        \<and> distinct (map fst (entries d)) \<and> 0 \<le> random \<and> random \<le> 1 - 1 / 2 ^ 53
        \<and> sumEntries (entries d) = Fin t \<and> 0 < t \<and> t \<le> 4294967295 \<longrightarrow>
      (\<exists>w c db'. handleSelectWinner random now adminId drawId db = (WinnerSelected w, db')
         \<and> objGet (entries d) w = Some (Fin c) \<and> 1 \<le> c
         \<and> objGet (donationDraws db') drawId =
             Some (d\<lparr>active := False, winner := Some w,
                     winnerSelectedAt := Some now, selectedBy := Some adminId\<rparr>)
         \<and> winsOf db' w = js_add (if js_falsy (winsOf db w) then Fin 0 else winsOf db w) (Fin 1)
         \<and> (\<forall>n. winsOf db w = Fin n \<and> 0 \<le> n \<and> n < 9007199254740991 \<longrightarrow> winsOf db' w = Fin (n + 1))
         \<and> (\<forall>u. u \<noteq> w \<longrightarrow> objGet (users db') u = objGet (users db) u)
         \<and> (\<forall>k. k \<noteq> drawId \<longrightarrow> objGet (donationDraws db') k = objGet (donationDraws db) k)))"
proof (intro conjI impI)
  assume "objGet (donationDraws db) drawId = None"
  then show "handleSelectWinner random now adminId drawId db = (DrawNotFound, db)"
    by (simp add: handleSelectWinner_def)
next
  assume "objGet (donationDraws db) drawId = Some d \<and> \<not> active d"
  then show "handleSelectWinner random now adminId drawId db = (DrawNotActive, db)"
    by (simp add: handleSelectWinner_def)
next
  assume "objGet (donationDraws db) drawId = Some d \<and> active d \<and> sumEntries (entries d) = Fin 0"
  then show "handleSelectWinner random now adminId drawId db = (NoEntries, db)"
    by (simp add: handleSelectWinner_def)
next
  assume a: "objGet (donationDraws db) drawId = Some d \<and> active d \<and> nonnegLedger (entries d)
        \<and> (sumEntries (entries d) = PInf \<or> (\<exists>t. sumEntries (entries d) = Fin t \<and> 4294967295 < t))"
  then have "weightedEntries (entries d) [] = None"
    by (intro weightedEntries_beyond_limit) simp_all
  moreover from a have "sumEntries (entries d) \<noteq> Fin 0" by auto
  ultimately show "handleSelectWinner random now adminId drawId db = (RangeErrorThrown, db)"
    using a by (simp add: handleSelectWinner_def)
next
  assume a: "objGet (donationDraws db) drawId = Some d \<and> active d \<and> nonnegLedger (entries d)
        \<and> distinct (map fst (entries d)) \<and> 0 \<le> random \<and> random \<le> 1 - 1 / 2 ^ 53
        \<and> sumEntries (entries d) = Fin t \<and> 0 < t \<and> t \<le> 4294967295"
  then have g: "objGet (donationDraws db) drawId = Some d" and act: "active d"
    and nn: "nonnegLedger (entries d)" and dist: "distinct (map fst (entries d))"
    and r: "0 \<le> random" "random \<le> 1 - 1 / 2 ^ 53"
    and t: "sumEntries (entries d) = Fin t" "0 < t" "t \<le> 4294967295"
    by simp_all
  from weightedEntries_within_limit [OF nn t(1,3)] obtain ws where
    ws: "weightedEntries (entries d) [] = Some ws" "int (length ws) = t"
        "\<forall>w \<in> set ws. \<exists>c. (w, Fin c) \<in> set (entries d) \<and> 1 \<le> c"
    by blast
  from ws(2) t(2,3) have len: "0 < length ws" "length ws \<le> 4294967295" by linarith+
  from randomIndex_in_range [OF r len] obtain q where
    q: "toDouble (random * of_nat (length ws)) = Dbl q" "0 \<le> \<lfloor>q\<rfloor>" "nat \<lfloor>q\<rfloor> < length ws"
    by blast
  define w where "w = ws ! nat \<lfloor>q\<rfloor>"
  from q(3) have "w \<in> set ws" by (simp add: w_def)
  with ws(3) obtain c where c: "(w, Fin c) \<in> set (entries d)" "1 \<le> c" by blast
  from objGet_distinct [OF dist c(1)] have get: "objGet (entries d) w = Some (Fin c)" .
  define u where "u = (case objGet (users db) w of None \<Rightarrow> newUser | Some u \<Rightarrow> u)"
  define db' where "db' = db\<lparr>users := objSet w
        (u\<lparr>wins := js_add (if js_falsy (wins u) then Fin 0 else wins u) (Fin 1)\<rparr>) (users db),
      donationDraws := objSet drawId (d\<lparr>active := False, winner := Some w,
          winnerSelectedAt := Some now, selectedBy := Some adminId\<rparr>) (donationDraws db)\<rparr>"
  from t(1,2) have nz: "sumEntries (entries d) \<noteq> Fin 0" by simp
  have run: "handleSelectWinner random now adminId drawId db = (WinnerSelected w, db')"
    using g act nz ws(1) q
    by (simp add: handleSelectWinner_def Let_def w_def [symmetric] u_def [symmetric] db'_def)
  have wu: "wins u = winsOf db w"
    by (simp add: winsOf_def u_def newUser_def split: option.splits)
  have wins: "winsOf db' w = js_add (if js_falsy (winsOf db w) then Fin 0 else winsOf db w) (Fin 1)"
    by (simp add: winsOf_def db'_def objGet_objSet wu)
  have wins1: "\<forall>n. winsOf db w = Fin n \<and> 0 \<le> n \<and> n < 9007199254740991 \<longrightarrow> winsOf db' w = Fin (n + 1)"
    unfolding wins by (auto simp: roundInt_small)
  have others: "\<forall>u'. u' \<noteq> w \<longrightarrow> objGet (users db') u' = objGet (users db) u'"
    by (simp add: db'_def objGet_objSet)
  have draws: "\<forall>k. k \<noteq> drawId \<longrightarrow> objGet (donationDraws db') k = objGet (donationDraws db) k"
    by (simp add: db'_def objGet_objSet)
  have closed: "objGet (donationDraws db') drawId =
      Some (d\<lparr>active := False, winner := Some w,
              winnerSelectedAt := Some now, selectedBy := Some adminId\<rparr>)"
    by (simp add: db'_def objGet_objSet)
  from run get c(2) closed wins wins1 others draws
  show "\<exists>w c db'. handleSelectWinner random now adminId drawId db = (WinnerSelected w, db')
         \<and> objGet (entries d) w = Some (Fin c) \<and> 1 \<le> c
         \<and> objGet (donationDraws db') drawId =
             Some (d\<lparr>active := False, winner := Some w,
                     winnerSelectedAt := Some now, selectedBy := Some adminId\<rparr>)
         \<and> winsOf db' w = js_add (if js_falsy (winsOf db w) then Fin 0 else winsOf db w) (Fin 1)
         \<and> (\<forall>n. winsOf db w = Fin n \<and> 0 \<le> n \<and> n < 9007199254740991 \<longrightarrow> winsOf db' w = Fin (n + 1))
         \<and> (\<forall>u. u \<noteq> w \<longrightarrow> objGet (users db') u = objGet (users db) u)
         \<and> (\<forall>k. k \<noteq> drawId \<longrightarrow> objGet (donationDraws db') k = objGet (donationDraws db) k)"
    by blast
qed

text \<open>
  A database with no users and one draw, created with \<open>min_amount = 5\<close> and
  \<open>max_entries = 100\<close>, holding the given ledger and activity flag.
\<close>

definition sampleDb :: "(string \<times> jsnum) list \<Rightarrow> bool \<Rightarrow> database" where
  "sampleDb ledger isActive =
     \<lparr>users = [],
      donationDraws = [(''draw_1'', (newDraw 5 None 100 None None)\<lparr>entries := ledger, active := isActive\<rparr>)],
      config = emptyConfig\<rparr>"

text \<open>
  The theorem at a draw that is not active, at an active draw with an empty ledger, at
  an active draw whose single count is \<open>2 ^ 32\<close>, and at an active draw with the
  ledger \<open>{a: 3, b: 1}\<close> and \<open>Math.random() = 0.5\<close>: index 2 of
  \<open>[a, a, a, b]\<close>, so \<open>a\<close> wins.
\<close>

theorem selectWinner_outcomes_witness:
  "handleSelectWinner 0 0 ''admin'' ''draw_1'' (sampleDb [(''a'', Fin 3)] False)
     = (DrawNotActive, sampleDb [(''a'', Fin 3)] False)
   \<and> handleSelectWinner 0 0 ''admin'' ''draw_1'' (sampleDb [] True) = (NoEntries, sampleDb [] True)
   \<and> handleSelectWinner 0 0 ''admin'' ''draw_1'' (sampleDb [(''a'', Fin 4294967296)] True)
     = (RangeErrorThrown, sampleDb [(''a'', Fin 4294967296)] True)
   \<and> (\<exists>db'. handleSelectWinner (1/2) 7 ''admin'' ''draw_1'' (sampleDb [(''a'', Fin 3), (''b'', Fin 1)] True)
              = (WinnerSelected ''a'', db') \<and> winsOf db' ''a'' = Fin 1)"
proof -
  let ?di = "(newDraw 5 None 100 None None)\<lparr>entries := [(''a'', Fin 3)], active := False\<rparr>"
  let ?d0 = "(newDraw 5 None 100 None None)\<lparr>entries := [], active := True\<rparr>"
  let ?dx = "(newDraw 5 None 100 None None)\<lparr>entries := [(''a'', Fin 4294967296)], active := True\<rparr>"
  let ?d1 = "(newDraw 5 None 100 None None)\<lparr>entries := [(''a'', Fin 3), (''b'', Fin 1)], active := True\<rparr>"
  have gi: "objGet (donationDraws (sampleDb [(''a'', Fin 3)] False)) ''draw_1'' = Some ?di \<and> \<not> active ?di"
    by (simp add: sampleDb_def)
  have g0: "objGet (donationDraws (sampleDb [] True)) ''draw_1'' = Some ?d0 \<and> active ?d0
              \<and> sumEntries (entries ?d0) = Fin 0"
    by (simp add: sampleDb_def sumEntries_def)
  have gx: "objGet (donationDraws (sampleDb [(''a'', Fin 4294967296)] True)) ''draw_1'' = Some ?dx
              \<and> active ?dx \<and> nonnegLedger (entries ?dx)
              \<and> (sumEntries (entries ?dx) = PInf \<or> (\<exists>t. sumEntries (entries ?dx) = Fin t \<and> 4294967295 < t))"
    by (simp add: sampleDb_def nonnegLedger_def count_eval)
  have g1: "objGet (donationDraws (sampleDb [(''a'', Fin 3), (''b'', Fin 1)] True)) ''draw_1'' = Some ?d1
              \<and> active ?d1 \<and> nonnegLedger (entries ?d1) \<and> distinct (map fst (entries ?d1))
              \<and> (0::rat) \<le> 1/2 \<and> (1/2::rat) \<le> 1 - 1 / 2 ^ 53
              \<and> sumEntries (entries ?d1) = Fin 4 \<and> (0::int) < 4 \<and> (4::int) \<le> 4294967295"
    by (simp add: sampleDb_def nonnegLedger_def count_eval)
  from selectWinner_outcomes [of "sampleDb [(''a'', Fin 3)] False" "''draw_1''" 0 0 "''admin''" ?di] gi
  have 1: "handleSelectWinner 0 0 ''admin'' ''draw_1'' (sampleDb [(''a'', Fin 3)] False)
     = (DrawNotActive, sampleDb [(''a'', Fin 3)] False)"
    by blast
  from selectWinner_outcomes [of "sampleDb [] True" "''draw_1''" 0 0 "''admin''" ?d0] g0
  have 2: "handleSelectWinner 0 0 ''admin'' ''draw_1'' (sampleDb [] True) = (NoEntries, sampleDb [] True)"
    by blast
  from selectWinner_outcomes [of "sampleDb [(''a'', Fin 4294967296)] True" "''draw_1''" 0 0 "''admin''" ?dx] gx
  have 3: "handleSelectWinner 0 0 ''admin'' ''draw_1'' (sampleDb [(''a'', Fin 4294967296)] True)
     = (RangeErrorThrown, sampleDb [(''a'', Fin 4294967296)] True)"
    by blast
  from selectWinner_outcomes [of "sampleDb [(''a'', Fin 3), (''b'', Fin 1)] True" "''draw_1''"
      "1/2" 7 "''admin''" ?d1 4] g1
  obtain w c db' where
    w: "handleSelectWinner (1/2) 7 ''admin'' ''draw_1'' (sampleDb [(''a'', Fin 3), (''b'', Fin 1)] True)
          = (WinnerSelected w, db')"
       "\<forall>n. winsOf (sampleDb [(''a'', Fin 3), (''b'', Fin 1)] True) w = Fin n \<and> 0 \<le> n \<and> n < 9007199254740991
            \<longrightarrow> winsOf db' w = Fin (n + 1)"
    by blast
  have q: "toDouble 2 = Dbl 2" by (simp add: double_eval)
  have rep: "replicate 3 x = [x, x, x]" for x :: string
    by (simp add: numeral_3_eq_3)
  have "handleSelectWinner (1/2) 7 ''admin'' ''draw_1'' (sampleDb [(''a'', Fin 3), (''b'', Fin 1)] True)
          = (WinnerSelected ''a'',
               (sampleDb [(''a'', Fin 3), (''b'', Fin 1)] True)
                 \<lparr>users := [(''a'', newUser\<lparr>wins := Fin 1\<rparr>)],
                  donationDraws := [(''draw_1'', ?d1\<lparr>active := False, winner := Some ''a'',
                     winnerSelectedAt := Some 7, selectedBy := Some ''admin''\<rparr>)]\<rparr>)"
    by (simp add: handleSelectWinner_def sampleDb_def count_eval Let_def newUser_def arrayLimit_def
        rep q)
  with w have "w = ''a''" by simp
  with w have "handleSelectWinner (1/2) 7 ''admin'' ''draw_1'' (sampleDb [(''a'', Fin 3), (''b'', Fin 1)] True)
              = (WinnerSelected ''a'', db') \<and> winsOf db' ''a'' = Fin 1"
    by (simp add: winsOf_def sampleDb_def)
  with 1 2 3 show ?thesis by blast
qed

text \<open>
  Claim C8 as stated fails for a draw that is not active: with a total of zero the reply
  is "not active", not "no entries"; with a positive total no winner is recorded. It also
  fails for an active draw with a total of \<open>2 ^ 32\<close>: the handler throws, the draw
  stays active and no winner is recorded.
\<close>

theorem selectWinner_inactive_draw_counterexample:
  "handleSelectWinner 0 0 ''admin'' ''draw_1'' (sampleDb [] False)
     = (DrawNotActive, sampleDb [] False)
   \<and> handleSelectWinner 0 0 ''admin'' ''draw_1'' (sampleDb [(''a'', Fin 3)] False)
     = (DrawNotActive, sampleDb [(''a'', Fin 3)] False)
   \<and> sumEntries [(''a'', Fin 4294967296)] = Fin 4294967296
   \<and> handleSelectWinner 0 0 ''admin'' ''draw_1'' (sampleDb [(''a'', Fin 4294967296)] True)
     = (RangeErrorThrown, sampleDb [(''a'', Fin 4294967296)] True)"
  by (simp add: handleSelectWinner_def sampleDb_def count_eval arrayLimit_def)

section \<open>Recipient policy\<close>

text \<open>
  Strings are lists of bytes; the text the handlers compare is ASCII (user ids, user
  names, currency symbols). \<open>s.replace(/[@<>!]/g, '')\<close>:
\<close>

definition stripDecoration :: "string \<Rightarrow> string" where
  "stripDecoration s = filter (\<lambda>c. c \<notin> set ''@<>!'') s"

text \<open>\<open>toLowerCase\<close>, on ASCII letters.\<close>

definition lowerChar :: "char \<Rightarrow> char" where
  "lowerChar c =
     (case map_of (zip ''ABCDEFGHIJKLMNOPQRSTUVWXYZ'' ''abcdefghijklmnopqrstuvwxyz'') c of
        None \<Rightarrow> c
      | Some l \<Rightarrow> l)"

definition toLowerCase :: "string \<Rightarrow> string" where
  "toLowerCase s = map lowerChar s"

text \<open>\<open>s.includes(t)\<close>: \<open>t\<close> occurs in \<open>s\<close> at some position.\<close>

fun startsWith :: "string \<Rightarrow> string \<Rightarrow> bool" where
  "startsWith s [] = True"
| "startsWith [] (c # cs) = False"
| "startsWith (x # xs) (c # cs) = (x = c \<and> startsWith xs cs)"

fun strIncludes :: "string \<Rightarrow> string \<Rightarrow> bool" where
  "strIncludes [] t = (t = [])"
| "strIncludes (x # xs) t = (startsWith (x # xs) t \<or> strIncludes xs t)"

text \<open>
  The recipient test of the message handler that processes tip.cc messages (lines
  1965-1976, "simplified approach"): equality after stripping, with no change of case.
\<close>

definition isAllowedRecipient :: "jsval list \<Rightarrow> string \<Rightarrow> bool" where
  "isAllowedRecipient allowedList recipient =
     list_ex (\<lambda>allowed.
        case allowed of
          NotString \<Rightarrow> False
        | Str a \<Rightarrow>
            (let cleanAllowed = stripDecoration a;
                 cleanRecipient = stripDecoration recipient
             in cleanAllowed = cleanRecipient)) allowedList"

text \<open>
  The recipient test of the other copy of the handler (lines 2566-2575; the
  \<open>execute\<close> of that copy returns on every message a bot wrote before it tests for
  tip.cc, which is a bot).
  \<open>recipientToCheck\<close> is the parsed recipient, or the user name of the member with
  that id when the recipient is a numeric id that the guild knows.
\<close>

definition isAllowedRecipientFlexible :: "jsval list \<Rightarrow> string \<Rightarrow> bool" where
  "isAllowedRecipientFlexible allowedList recipientToCheck =
     (let cleanRecipient = toLowerCase (stripDecoration recipientToCheck)
      in list_ex (\<lambda>allowed.
           case allowed of
             NotString \<Rightarrow> False
           | Str a \<Rightarrow>
               (let cleanAllowed = toLowerCase (stripDecoration a)
                in strIncludes cleanRecipient cleanAllowed \<or> strIncludes cleanAllowed cleanRecipient))
         allowedList)"

text \<open>The match of claim C4, in the specification's words.\<close>

definition substringOf :: "string \<Rightarrow> string \<Rightarrow> bool" where
  "substringOf t s = (\<exists>p q. s = p @ t @ q)"

definition spec_recipientMatch :: "string \<Rightarrow> string \<Rightarrow> bool" where
  "spec_recipientMatch allowed recipient =
     (let a = toLowerCase (stripDecoration allowed); r = toLowerCase (stripDecoration recipient)
      in a = r \<or> substringOf a r \<or> substringOf r a)"

lemma startsWith_iff: "startsWith s t \<longleftrightarrow> (\<exists>q. s = t @ q)"
  by (induction s t rule: startsWith.induct) auto

lemma strIncludes_iff: "strIncludes s t \<longleftrightarrow> substringOf t s"
proof (induction s)
  case Nil
  show ?case by (auto simp: substringOf_def)
next
  case (Cons x xs)
  show ?case
  proof
    assume "strIncludes (x # xs) t"
    then consider "startsWith (x # xs) t" | "strIncludes xs t" by auto
    then show "substringOf t (x # xs)"
    proof cases
      case 1
      then obtain q where "x # xs = t @ q" by (auto simp: startsWith_iff)
      then have "x # xs = [] @ t @ q" by simp
      then show ?thesis unfolding substringOf_def by blast
    next
      case 2
      with Cons.IH obtain p q where "xs = p @ t @ q" by (auto simp: substringOf_def)
      then have "x # xs = (x # p) @ t @ q" by simp
      then show ?thesis unfolding substringOf_def by blast
    qed
  next
    assume "substringOf t (x # xs)"
    then obtain p q where pq: "x # xs = p @ t @ q" by (auto simp: substringOf_def)
    show "strIncludes (x # xs) t"
    proof (cases p)
      case Nil
      with pq have "startsWith (x # xs) t" by (auto simp: startsWith_iff)
      then show ?thesis by simp
    next
      case (Cons y ys)
      with pq have "xs = ys @ t @ q" by simp
      then have "substringOf t xs" unfolding substringOf_def by blast
      with Cons.IH show ?thesis by simp
    qed
  qed
qed

lemma list_ex_Str:
  "list_ex (\<lambda>allowed. case allowed of NotString \<Rightarrow> False | Str a \<Rightarrow> P a) l \<longleftrightarrow>
   (\<exists>a. Str a \<in> set l \<and> P a)"
proof (induction l)
  case Nil
  show ?case by simp
next
  case (Cons x xs)
  show ?case
  proof (cases x)
    case (Str a)
    with Cons.IH show ?thesis by auto
  next
    case NotString
    with Cons.IH show ?thesis by auto
  qed
qed

lemma flexible_is_spec_match:
  "(strIncludes (toLowerCase (stripDecoration r)) (toLowerCase (stripDecoration a)) \<or>
    strIncludes (toLowerCase (stripDecoration a)) (toLowerCase (stripDecoration r)))
   \<longleftrightarrow> spec_recipientMatch a r"
proof -
  have "x = y \<Longrightarrow> substringOf x y" for x y :: string
    unfolding substringOf_def by (metis append_Nil append_Nil2)
  then show ?thesis
    unfolding spec_recipientMatch_def Let_def strIncludes_iff by blast
qed

section \<open>Claim C4: recipient eligibility\<close>

text \<open>
  Claim C4, amended. In the handler that processes tip.cc messages a recipient is
  eligible if and only if some allowed entry that is a string equals it after both are
  stripped of the characters \<open>@ < > !\<close>; the comparison is case-sensitive and there
  is no substring match, so recipient \<open>bobby\<close> is not eligible for the allowed entry
  \<open>bob\<close>. In the other copy of the handler a recipient is eligible if and only if
  some allowed string entry matches it as the claim says (after stripping and
  lower-casing, one string contains the other); there \<open>bobby\<close> matches \<open>bob\<close>.
\<close>

theorem recipient_matching:
  "(isAllowedRecipient allowedList r \<longleftrightarrow>
      (\<exists>a. Str a \<in> set allowedList \<and> stripDecoration a = stripDecoration r))
   \<and> (isAllowedRecipientFlexible allowedList r \<longleftrightarrow>
      (\<exists>a. Str a \<in> set allowedList \<and> spec_recipientMatch a r))
   \<and> isAllowedRecipientFlexible [Str ''bob''] ''bobby''
   \<and> \<not> isAllowedRecipient [Str ''bob''] ''bobby''"
proof -
  have 1: "isAllowedRecipient allowedList r \<longleftrightarrow>
      (\<exists>a. Str a \<in> set allowedList \<and> stripDecoration a = stripDecoration r)"
    unfolding isAllowedRecipient_def Let_def by (rule list_ex_Str)
  have 2: "isAllowedRecipientFlexible allowedList r \<longleftrightarrow>
      (\<exists>a. Str a \<in> set allowedList \<and> spec_recipientMatch a r)"
    unfolding isAllowedRecipientFlexible_def Let_def list_ex_Str flexible_is_spec_match ..
  have 3: "isAllowedRecipientFlexible [Str ''bob''] ''bobby''"
    by (simp add: isAllowedRecipientFlexible_def toLowerCase_def stripDecoration_def lowerChar_def)
  have 4: "\<not> isAllowedRecipient [Str ''bob''] ''bobby''"
    by (simp add: isAllowedRecipient_def stripDecoration_def)
  from 1 2 3 4 show ?thesis by blast
qed

text \<open>
  The theorem at an allowed list with a corrupted entry and the mention \<open><@bob>\<close>:
  the recipient \<open>bob!\<close> is eligible by exact match, and \<open>BOBBY\<close> is eligible
  for the entry \<open>Bob\<close> in the other copy of the handler.
\<close>

theorem recipient_matching_witness:
  "isAllowedRecipient [NotString, Str ''<@bob>''] ''bob!''
   \<and> isAllowedRecipientFlexible [NotString, Str ''Bob''] ''<@BOBBY>''"
proof -
  have a: "Str ''<@bob>'' \<in> set [NotString, Str ''<@bob>''] \<and>
           stripDecoration ''<@bob>'' = stripDecoration ''bob!''"
    by (simp add: stripDecoration_def)
  have "''bobby'' = [] @ ''bob'' @ ''by''" by simp
  then have "substringOf ''bob'' ''bobby''" unfolding substringOf_def by blast
  then have b: "Str ''Bob'' \<in> set [NotString, Str ''Bob''] \<and> spec_recipientMatch ''Bob'' ''<@BOBBY>''"
    by (simp add: spec_recipientMatch_def stripDecoration_def toLowerCase_def lowerChar_def)
  from recipient_matching [of "[NotString, Str ''<@bob>'']" "''bob!''"] a
  have 1: "isAllowedRecipient [NotString, Str ''<@bob>''] ''bob!''" by blast
  from recipient_matching [of "[NotString, Str ''Bob'']" "''<@BOBBY>''"] b
  have 2: "isAllowedRecipientFlexible [NotString, Str ''Bob''] ''<@BOBBY>''" by blast
  from 1 2 show ?thesis by simp
qed

text \<open>
  Claim C4 as stated fails for the handler that processes tip.cc messages: \<open>bobby\<close>
  matches \<open>bob\<close> in the specification's sense and \<open>Bob\<close> matches \<open>bob\<close>, and
  neither is eligible.
\<close>

theorem exact_match_rejects_bobby_counterexample:
  "spec_recipientMatch ''bob'' ''bobby'' \<and> \<not> isAllowedRecipient [Str ''bob''] ''bobby''
   \<and> spec_recipientMatch ''Bob'' ''bob'' \<and> \<not> isAllowedRecipient [Str ''Bob''] ''bob''"
proof -
  have "''bobby'' = [] @ ''bob'' @ ''by''" by simp
  then have "substringOf ''bob'' ''bobby''" unfolding substringOf_def by blast
  then show ?thesis
    by (simp add: spec_recipientMatch_def isAllowedRecipient_def toLowerCase_def
        stripDecoration_def lowerChar_def)
qed

section \<open>Price resolution\<close>

text \<open>\<open>\d\<close>, and the value of a string of digits.\<close>

definition isDigit :: "char \<Rightarrow> bool" where
  "isDigit c = (c \<in> set ''0123456789'')"

definition digitValue :: "char \<Rightarrow> nat" where
  "digitValue c =
     (case map_of (zip ''0123456789'' [0, 1, 2, 3, 4, 5, 6, 7, 8, 9]) c of
        None \<Rightarrow> 0
      | Some n \<Rightarrow> n)"

definition digitsValue :: "string \<Rightarrow> nat" where
  "digitsValue ds = foldl (\<lambda>acc c. 10 * acc + digitValue c) 0 ds"

text \<open>
  The group \<open>(\d+\.?\d*)\<close> of \<open>priceRegex\<close>, matched greedily at a text that
  starts with a digit: the digits before the point and those after it.
\<close>

definition priceCapture :: "string \<Rightarrow> string \<times> string" where
  "priceCapture cs =
     (let whole = takeWhile isDigit cs; rest = dropWhile isDigit cs
      in case rest of
           [] \<Rightarrow> (whole, [])
         | c # rest' \<Rightarrow> if c = CHR ''.'' then (whole, takeWhile isDigit rest') else (whole, []))"

text \<open>
  \<open>content.match(/\$(\d+\.?\d*)/)\<close>: the leftmost \<open>$\<close> that a digit follows.
\<close>

fun matchPrice :: "string \<Rightarrow> (string \<times> string) option" where
  "matchPrice [] = None"
| "matchPrice [c] = None"
| "matchPrice (c # d # cs) =
     (if c = CHR ''$'' \<and> isDigit d then Some (priceCapture (d # cs)) else matchPrice (d # cs))"

text \<open>
  \<open>parseFloat\<close> of the captured decimal: the double nearest to it. (A capture
  of more than 308 digits parses to \<open>Infinity\<close>; as \<open>NaN\<close> below, it is
  outside the model, which keeps the decimal there.) \<open>extractPriceFromTipMessage\<close>
  takes the parsed amount and does not use it.
\<close>

definition parseFloat :: "string \<times> string \<Rightarrow> rat" where
  "parseFloat m =
     (let decimal = of_nat (digitsValue (fst m)) + of_nat (digitsValue (snd m)) / 10 ^ length (snd m)
      in case toDouble decimal of Dbl q \<Rightarrow> q | _ \<Rightarrow> decimal)"

definition extractPriceFromTipMessage :: "string \<Rightarrow> rat \<Rightarrow> rat option" where
  "extractPriceFromTipMessage content amount =
     (case matchPrice content of None \<Rightarrow> None | Some m \<Rightarrow> Some (parseFloat m))"

text \<open>
  What a price provider's fetch function does for a symbol: it throws, or returns a
  price or \<open>null\<close>. The three functions are HTTP calls: they are parameters of the
  model, with the other values the handlers read from outside (\<open>Date.now()\<close> and
  the constants of \<open>config.js\<close>, which is not among the sources).
\<close>

datatype fetchResult = Threw | Returned "rat option"

record env =
  fetchCoinGeckoPrice :: "string \<Rightarrow> fetchResult"
  fetchCoinPaprikaPrice :: "string \<Rightarrow> fetchResult"
  fetchCoinMarketCapPrice :: "string \<Rightarrow> fetchResult"
  dateNow :: int
  ACHIEVEMENTS :: "string list"
  DEFAULT_ACCEPTED_CRYPTOCURRENCIES :: "string list"

text \<open>
  The loop of \<open>getCryptoPrice\<close> over the providers; \<open>price && price > 0\<close>.
  \<open>amount\<close> is the value of \<open>Number.parseFloat\<close> on the captured amount (a
  capture without a digit, which parses to \<open>NaN\<close>, is outside the model).
\<close>

fun tryApis :: "(string \<Rightarrow> fetchResult) list \<Rightarrow> string \<Rightarrow> rat \<Rightarrow> rat option" where
  "tryApis [] symbol amount = None"
| "tryApis (api # apis) symbol amount =
     (case api symbol of
        Threw \<Rightarrow> tryApis apis symbol amount
      | Returned price \<Rightarrow>
          if truthy price \<and> the price > 0 then Some (the price * amount)
          else tryApis apis symbol amount)"

definition getCryptoPrice :: "env \<Rightarrow> string \<Rightarrow> rat \<Rightarrow> rat option" where
  "getCryptoPrice e symbol amount =
     tryApis [fetchCoinGeckoPrice e, fetchCoinPaprikaPrice e, fetchCoinMarketCapPrice e] symbol amount"

text \<open>
  Lines 1991-1999 of \<open>handleTipccDonation\<close>: the embedded price, then the
  providers; \<open>None\<close> is the early return when no source gave a truthy value.
\<close>

definition resolveUsdValue :: "env \<Rightarrow> string \<Rightarrow> string \<Rightarrow> rat \<Rightarrow> rat option" where
  "resolveUsdValue e content currency amount =
     (let usdValue = extractPriceFromTipMessage content amount;
          usdValue = (if \<not> truthy usdValue then getCryptoPrice e currency amount else usdValue)
      in if \<not> truthy usdValue then None else usdValue)"

text \<open>
  In the specification's words: a provider succeeds when it returns a positive price,
  and the first one in the list that succeeds wins.
\<close>

definition positivePrice :: "fetchResult \<Rightarrow> bool" where
  "positivePrice r = (case r of Threw \<Rightarrow> False | Returned p \<Rightarrow> (case p of None \<Rightarrow> False | Some x \<Rightarrow> 0 < x))"

definition spec_firstPositive :: "fetchResult list \<Rightarrow> rat option" where
  "spec_firstPositive rs =
     (case filter positivePrice rs of
        Returned (Some p) # _ \<Rightarrow> Some p
      | _ \<Rightarrow> None)"

lemma tryApis_spec:
  "tryApis apis symbol amount =
   map_option (\<lambda>p. p * amount) (spec_firstPositive (map (\<lambda>api. api symbol) apis))"
proof (induction apis)
  case Nil
  show ?case by (simp add: spec_firstPositive_def)
next
  case (Cons api apis)
  show ?case
  proof (cases "positivePrice (api symbol)")
    case True
    then obtain p where "api symbol = Returned (Some p)" "0 < p"
      by (auto simp: positivePrice_def split: fetchResult.splits option.splits)
    then show ?thesis by (simp add: spec_firstPositive_def positivePrice_def truthy_def)
  next
    case False
    then have "tryApis (api # apis) symbol amount = tryApis apis symbol amount"
      by (auto simp: positivePrice_def truthy_def split: fetchResult.splits option.splits)
    with False Cons.IH show ?thesis by (simp add: spec_firstPositive_def)
  qed
qed


text \<open>
  An environment whose three providers answer every symbol with the given results.
\<close>

definition sampleEnv :: "fetchResult \<Rightarrow> fetchResult \<Rightarrow> fetchResult \<Rightarrow> env" where
  "sampleEnv gecko paprika cmc =
     \<lparr>fetchCoinGeckoPrice = (\<lambda>symbol. gecko),
      fetchCoinPaprikaPrice = (\<lambda>symbol. paprika),
      fetchCoinMarketCapPrice = (\<lambda>symbol. cmc),
      dateNow = 1700000000000,
      ACHIEVEMENTS = [''first_steps'', ''generous_donor'', ''big_spender'', ''whale'',
                      ''streak_master'', ''community_pillar'', ''lucky_winner''],
      DEFAULT_ACCEPTED_CRYPTOCURRENCIES = [''BTC'', ''ETH'', ''LTC'']\<rparr>"

text \<open>An embedded price of \<open>$0.30\<close> is read as the double nearest to 0.3.\<close>

lemma extractPrice_nearest_double:
  "extractPriceFromTipMessage ''alice sent 1 LTC to bob ($0.30).'' 1 = Some double_0_3"
  by (simp add: extractPriceFromTipMessage_def parseFloat_def priceCapture_def isDigit_def
      digitsValue_def digitValue_def double_eval double_0_3_def)

section \<open>Claim C5: price resolution\<close>




section \<open>Donor role tiers\<close>

text \<open>
  \<open>total >= role.minAmount && (!role.maxAmount || total <= role.maxAmount)\<close>
\<close>

definition inTier :: "rat \<Rightarrow> donorRole \<Rightarrow> bool" where
  "inTier donated role =
     (donated \<ge> roleMinAmount role \<and>
      (\<not> truthy (roleMaxAmount role) \<or> donated \<le> the (roleMaxAmount role)))"

text \<open>
  \<open>assignDonorRoles\<close> of the handler that processes tip.cc messages (lines
  2333-2405). The first loop finds the held tier role with the greatest
  \<open>minAmount\<close>, the second the tier of the new total with the greatest
  \<open>minAmount\<close>; both start from the value 0. \<open>roles\<close> is the member's role
  cache; role changes are taken to succeed and to show in the cache at once.
\<close>

fun currentRoleLoop ::
  "string list \<Rightarrow> (string \<times> donorRole) list \<Rightarrow> donorRole option \<times> rat \<Rightarrow> donorRole option \<times> rat" where
  "currentRoleLoop roles [] acc = acc"
| "currentRoleLoop roles ((key, role) # rest) (currentRole, currentRoleValue) =
     currentRoleLoop roles rest
       (if roleId role \<in> set roles \<and> roleMinAmount role > currentRoleValue
        then (Some role, roleMinAmount role) else (currentRole, currentRoleValue))"

fun newRoleLoop ::
  "rat \<Rightarrow> (string \<times> donorRole) list \<Rightarrow> donorRole option \<times> rat \<Rightarrow> donorRole option \<times> rat" where
  "newRoleLoop newTotal [] acc = acc"
| "newRoleLoop newTotal ((key, role) # rest) (newRole, newRoleValue) =
     newRoleLoop newTotal rest
       (if inTier newTotal role \<and> roleMinAmount role > newRoleValue
        then (Some role, roleMinAmount role) else (newRole, newRoleValue))"

text \<open>Remove every configured tier role the member holds, then add the new one.\<close>

definition replaceTierRole :: "(string \<times> donorRole) list \<Rightarrow> string list \<Rightarrow> donorRole \<Rightarrow> string list" where
  "replaceTierRole tiers roles newRole =
     filter (\<lambda>r. r \<notin> set (map (roleId \<circ> snd) tiers)) roles @ [roleId newRole]"

definition assignDonorRoles :: "(string \<times> donorRole) list \<Rightarrow> string list \<Rightarrow> rat \<Rightarrow> string list" where
  "assignDonorRoles tiers roles newTotal =
     (if tiers = [] then roles
      else
        let (currentRole, currentRoleValue) = currentRoleLoop roles tiers (None, 0);
            (newRole, newRoleValue) = newRoleLoop newTotal tiers (None, 0)
        in if newRole \<noteq> None \<and> (currentRole = None \<or> newRoleValue > currentRoleValue)
           then replaceTierRole tiers roles (the newRole)
           else roles)"

text \<open>Two tiers: Bronze from 1 to 50 USD, Gold from 51 USD.\<close>

definition sampleTiers :: "(string \<times> donorRole) list" where
  "sampleTiers =
     [(''bronze'', \<lparr>roleId = ''role_bronze'', roleMinAmount = 1, roleMaxAmount = Some 50\<rparr>),
      (''gold'', \<lparr>roleId = ''role_gold'', roleMinAmount = 51, roleMaxAmount = None\<rparr>)]"

lemma currentRoleLoop_bound:
  assumes "currentRoleLoop roles tiers (cur, v) = (cur', v')"
  shows "v \<le> v' \<and> (cur' = None \<longrightarrow> cur = None \<and> v' = v)
       \<and> (\<forall>(k, r) \<in> set tiers. roleId r \<in> set roles \<longrightarrow> roleMinAmount r \<le> v')"
  using assms
proof (induction tiers arbitrary: cur v)
  case Nil
  then show ?case by simp
next
  case (Cons p tiers)
  obtain k r where p: "p = (k, r)" by (cases p)
  show ?case
  proof (cases "roleId r \<in> set roles \<and> roleMinAmount r > v")
    case True
    with Cons.prems p have "currentRoleLoop roles tiers (Some r, roleMinAmount r) = (cur', v')"
      by simp
    from Cons.IH [OF this] True p show ?thesis by auto
  next
    case False
    with Cons.prems p have "currentRoleLoop roles tiers (cur, v) = (cur', v')" by auto
    from Cons.IH [OF this] False p show ?thesis by auto
  qed
qed

lemma newRoleLoop_result:
  assumes "newRoleLoop newTotal tiers (new, v) = (Some r, v')"
    and "new = None \<or> (\<exists>k. (k, the new) \<in> set tiers0 \<and> inTier newTotal (the new) \<and> v = roleMinAmount (the new))"
    and "set tiers \<subseteq> set tiers0"
  shows "(\<exists>k. (k, r) \<in> set tiers0) \<and> inTier newTotal r \<and> v' = roleMinAmount r"
  using assms
proof (induction tiers arbitrary: new v)
  case Nil
  then show ?case by auto
next
  case (Cons p tiers)
  obtain k r' where p: "p = (k, r')" by (cases p)
  show ?case
  proof (cases "inTier newTotal r' \<and> roleMinAmount r' > v")
    case True
    with Cons.prems(1) p have run: "newRoleLoop newTotal tiers (Some r', roleMinAmount r') = (Some r, v')"
      by simp
    have "(k, r') \<in> set tiers0" using Cons.prems(3) p by auto
    with True have inv: "Some r' = None \<or> (\<exists>k. (k, the (Some r')) \<in> set tiers0 \<and>
        inTier newTotal (the (Some r')) \<and> roleMinAmount r' = roleMinAmount (the (Some r')))"
      by auto
    from Cons.IH [OF run inv] Cons.prems(3) show ?thesis by simp
  next
    case False
    with Cons.prems(1) p have run: "newRoleLoop newTotal tiers (new, v) = (Some r, v')" by auto
    from Cons.IH [OF run Cons.prems(2)] Cons.prems(3) show ?thesis by simp
  qed
qed

lemma newRoleLoop_mono:
  "newRoleLoop newTotal tiers (new, v) = (new', v') \<Longrightarrow> v \<le> v' \<and> (new = None \<and> new' \<noteq> None \<longrightarrow> v < v')"
proof (induction tiers arbitrary: new v)
  case Nil
  then show ?case by auto
next
  case (Cons p tiers)
  obtain k r where p: "p = (k, r)" by (cases p)
  show ?case
  proof (cases "inTier newTotal r \<and> roleMinAmount r > v")
    case True
    with Cons.prems p have "newRoleLoop newTotal tiers (Some r, roleMinAmount r) = (new', v')"
      by simp
    from Cons.IH [OF this] True show ?thesis by auto
  next
    case False
    with Cons.prems p have "newRoleLoop newTotal tiers (new, v) = (new', v')" by auto
    from Cons.IH [OF this] show ?thesis by auto
  qed
qed

lemma newRoleLoop_max:
  assumes "newRoleLoop newTotal tiers (new, v) = (new', v')"
  shows "v \<le> v' \<and> (\<forall>(k, r) \<in> set tiers. inTier newTotal r \<longrightarrow> roleMinAmount r \<le> v')"
  using assms
proof (induction tiers arbitrary: new v)
  case Nil
  then show ?case by simp
next
  case (Cons p tiers)
  obtain k r where p: "p = (k, r)" by (cases p)
  show ?case
  proof (cases "inTier newTotal r \<and> roleMinAmount r > v")
    case True
    with Cons.prems p have "newRoleLoop newTotal tiers (Some r, roleMinAmount r) = (new', v')"
      by simp
    from Cons.IH [OF this] True p show ?thesis by auto
  next
    case False
    with Cons.prems p have "newRoleLoop newTotal tiers (new, v) = (new', v')" by auto
    from Cons.IH [OF this] False p show ?thesis by auto
  qed
qed

section \<open>Claim C7: donor roles never downgrade\<close>

text \<open>
  Claim C7. When \<open>assignDonorRoles\<close> changes the roles of a member, it replaces the
  configured tier roles the member holds by the role of one tier: a tier whose range
  holds the new total, with the greatest \<open>minAmount\<close> among such tiers, and this
  \<open>minAmount\<close> is strictly greater than that of every tier role the member held.
  Hence, when the member holds a tier role whose \<open>minAmount\<close> is not below that of
  any tier holding the new total, no role is removed or granted.
\<close>

theorem donor_roles_never_downgrade:
  "(assignDonorRoles tiers roles newTotal \<noteq> roles \<longrightarrow>
      (\<exists>k new. (k, new) \<in> set tiers \<and> inTier newTotal new
         \<and> (\<forall>(k', r) \<in> set tiers. inTier newTotal r \<longrightarrow> roleMinAmount r \<le> roleMinAmount new)
         \<and> assignDonorRoles tiers roles newTotal = replaceTierRole tiers roles new
         \<and> (\<forall>(k', held) \<in> set tiers. roleId held \<in> set roles \<longrightarrow>
               roleMinAmount held < roleMinAmount new)))
   \<and> ((\<exists>(k, held) \<in> set tiers. roleId held \<in> set roles
          \<and> (\<forall>(k', r) \<in> set tiers. inTier newTotal r \<longrightarrow> roleMinAmount r \<le> roleMinAmount held)) \<longrightarrow>
      assignDonorRoles tiers roles newTotal = roles)"
proof -
  have change: "\<exists>k new. (k, new) \<in> set tiers \<and> inTier newTotal new
         \<and> (\<forall>(k', r) \<in> set tiers. inTier newTotal r \<longrightarrow> roleMinAmount r \<le> roleMinAmount new)
         \<and> assignDonorRoles tiers roles newTotal = replaceTierRole tiers roles new
         \<and> (\<forall>(k', held) \<in> set tiers. roleId held \<in> set roles \<longrightarrow>
               roleMinAmount held < roleMinAmount new)"
    if changed: "assignDonorRoles tiers roles newTotal \<noteq> roles"
  proof -
    obtain cur cv where c: "currentRoleLoop roles tiers (None, 0) = (cur, cv)"
      by (cases "currentRoleLoop roles tiers (None, 0)")
    obtain new nv where n: "newRoleLoop newTotal tiers (None, 0) = (new, nv)"
      by (cases "newRoleLoop newTotal tiers (None, 0)")
    from changed c n have ne: "new \<noteq> None" and gt: "cur = None \<or> nv > cv"
      and res: "assignDonorRoles tiers roles newTotal = replaceTierRole tiers roles (the new)"
      by (auto simp: assignDonorRoles_def split: if_splits)
    from ne obtain r where r: "new = Some r" by auto
    from newRoleLoop_result [of newTotal tiers None 0 r nv tiers] n r
    have new: "\<exists>k. (k, r) \<in> set tiers" "inTier newTotal r" "nv = roleMinAmount r" by auto
    from newRoleLoop_max [OF n] new(3)
    have top: "\<forall>(k', r') \<in> set tiers. inTier newTotal r' \<longrightarrow> roleMinAmount r' \<le> roleMinAmount r"
      by simp
    from currentRoleLoop_bound [OF c]
    have bound: "0 \<le> cv" "cur = None \<longrightarrow> cv = 0"
        "\<forall>(k, h) \<in> set tiers. roleId h \<in> set roles \<longrightarrow> roleMinAmount h \<le> cv"
      by auto
    from newRoleLoop_mono [OF n] ne have "0 < nv" by simp
    with gt bound(2) have "cv < nv" by auto
    with bound(3) new(3) have "\<forall>(k', held) \<in> set tiers. roleId held \<in> set roles \<longrightarrow>
        roleMinAmount held < roleMinAmount r"
      by fastforce
    with new top res r show ?thesis by auto
  qed
  have keep: "assignDonorRoles tiers roles newTotal = roles"
    if held: "\<exists>(k, held) \<in> set tiers. roleId held \<in> set roles
          \<and> (\<forall>(k', r) \<in> set tiers. inTier newTotal r \<longrightarrow> roleMinAmount r \<le> roleMinAmount held)"
  proof (rule ccontr)
    assume "assignDonorRoles tiers roles newTotal \<noteq> roles"
    from change [OF this] obtain k new where
      new: "(k, new) \<in> set tiers" "inTier newTotal new"
           "\<forall>(k', h) \<in> set tiers. roleId h \<in> set roles \<longrightarrow> roleMinAmount h < roleMinAmount new"
      by blast
    from held obtain k0 h where h: "(k0, h) \<in> set tiers" "roleId h \<in> set roles"
        "\<forall>(k', r) \<in> set tiers. inTier newTotal r \<longrightarrow> roleMinAmount r \<le> roleMinAmount h"
      by auto
    from h(3) new(1,2) have "roleMinAmount new \<le> roleMinAmount h" by auto
    moreover from new(3) h(1,2) have "roleMinAmount h < roleMinAmount new" by auto
    ultimately show False by simp
  qed
  from change keep show ?thesis by blast
qed

text \<open>
  The theorem at the two tiers above: a member who holds Gold (minimum 51) keeps it at a
  total of 10 USD, and a member who holds Bronze is moved to a tier with a greater
  minimum at a total of 60 USD.
\<close>

theorem donor_roles_never_downgrade_witness:
  "assignDonorRoles sampleTiers [''role_gold''] 10 = [''role_gold'']
   \<and> (\<exists>k new. (k, new) \<in> set sampleTiers \<and> inTier 60 new
         \<and> assignDonorRoles sampleTiers [''role_bronze''] 60 = replaceTierRole sampleTiers [''role_bronze''] new
         \<and> 1 < roleMinAmount new)"
proof -
  let ?gold = "\<lparr>roleId = ''role_gold'', roleMinAmount = 51, roleMaxAmount = None\<rparr>"
  let ?bronze = "\<lparr>roleId = ''role_bronze'', roleMinAmount = 1, roleMaxAmount = Some 50\<rparr>"
  have held: "\<exists>(k, held) \<in> set sampleTiers. roleId held \<in> set [''role_gold'']
          \<and> (\<forall>(k', r) \<in> set sampleTiers. inTier 10 r \<longrightarrow> roleMinAmount r \<le> roleMinAmount held)"
    by (simp add: sampleTiers_def inTier_def truthy_def)
  from donor_roles_never_downgrade [of sampleTiers "[''role_gold'']" 10] held
  have 1: "assignDonorRoles sampleTiers [''role_gold''] 10 = [''role_gold'']" by blast
  have changed: "assignDonorRoles sampleTiers [''role_bronze''] 60 \<noteq> [''role_bronze'']"
    by (simp add: assignDonorRoles_def sampleTiers_def inTier_def truthy_def replaceTierRole_def)
  from donor_roles_never_downgrade [of sampleTiers "[''role_bronze'']" 60] changed
  obtain k new where new: "(k, new) \<in> set sampleTiers" "inTier 60 new"
      "assignDonorRoles sampleTiers [''role_bronze''] 60 = replaceTierRole sampleTiers [''role_bronze''] new"
      "\<forall>(k', held) \<in> set sampleTiers. roleId held \<in> set [''role_bronze''] \<longrightarrow>
          roleMinAmount held < roleMinAmount new"
    by blast
  have "(''bronze'', ?bronze) \<in> set sampleTiers" by (simp add: sampleTiers_def)
  with new(4) have "1 < roleMinAmount new" by fastforce
  with new 1 show ?thesis by blast
qed

text \<open>
  The source holds a second \<open>assignDonorRoles\<close> (lines 2849-2889), in the copy of
  the handler that no tip.cc message reaches (lemma \<open>executeLegacy_ignores_bots\<close>
  below). Its tier is the last entry of \<open>CONFIG.DONOR_ROLES\<close> whose range holds the
  total; it does not read the roles the member holds and replaces them whenever the tier
  of the new total is not the tier of the old total.
\<close>

fun legacyRoleLoop ::
  "rat \<Rightarrow> (string \<times> donorRole) list \<Rightarrow> (string \<times> donorRole) option \<Rightarrow> (string \<times> donorRole) option" where
  "legacyRoleLoop donated [] acc = acc"
| "legacyRoleLoop donated ((key, role) # rest) acc =
     legacyRoleLoop donated rest (if inTier donated role then Some (key, role) else acc)"

definition assignDonorRolesLegacy ::
  "(string \<times> donorRole) list \<Rightarrow> string list \<Rightarrow> rat \<Rightarrow> rat \<Rightarrow> string list" where
  "assignDonorRolesLegacy tiers roles newTotal oldTotal =
     (let newRole = legacyRoleLoop newTotal tiers None;
          oldRole = legacyRoleLoop oldTotal tiers None
      in if newRole \<noteq> None \<and> newRole \<noteq> oldRole
         then replaceTierRole tiers roles (snd (the newRole))
         else roles)"

text \<open>
  On the two tiers above, and on two tiers whose ranges overlap (Bronze from 1 to 100
  USD, Silver from 50 to 60), that copy gives a lower tier where the function above keeps
  the higher one.
\<close>

definition overlappingTiers :: "(string \<times> donorRole) list" where
  "overlappingTiers =
     [(''bronze'', \<lparr>roleId = ''role_bronze'', roleMinAmount = 1, roleMaxAmount = Some 100\<rparr>),
      (''silver'', \<lparr>roleId = ''role_silver'', roleMinAmount = 50, roleMaxAmount = Some 60\<rparr>)]"

lemma assignDonorRolesLegacy_replaces:
  "assignDonorRolesLegacy sampleTiers [''role_gold''] 10 0 = [''role_bronze'']
   \<and> assignDonorRoles sampleTiers [''role_gold''] 10 = [''role_gold'']
   \<and> assignDonorRolesLegacy overlappingTiers [] 55 0 = [''role_silver'']
   \<and> assignDonorRolesLegacy overlappingTiers [''role_silver''] 70 55 = [''role_bronze'']
   \<and> assignDonorRoles overlappingTiers [''role_silver''] 70 = [''role_silver'']"
  by (simp add: assignDonorRolesLegacy_def assignDonorRoles_def sampleTiers_def
      overlappingTiers_def inTier_def truthy_def replaceTierRole_def)

section \<open>Achievements\<close>

text \<open>
  \<open>Object.values(db.users).filter(user => user.referredBy === userId).length\<close>
\<close>

definition referralCount :: "(string \<times> user) list \<Rightarrow> string \<Rightarrow> nat" where
  "referralCount us userId = length (filter (\<lambda>u. referredBy u = Some userId) (map snd us))"

text \<open>The \<open>switch (key)\<close> of both functions; a key without a case earns nothing.\<close>

definition earned :: "string \<Rightarrow> string \<Rightarrow> user \<Rightarrow> (string \<times> user) list \<Rightarrow> bool" where
  "earned key userId userData us =
     (if key = ''first_steps'' then totalDonated userData > 0
      else if key = ''generous_donor'' then totalDonated userData \<ge> 100
      else if key = ''big_spender'' then totalDonated userData \<ge> 500
      else if key = ''whale'' then totalDonated userData \<ge> 1000
      else if key = ''streak_master'' then current (userStreaks userData) \<ge> 7
      else if key = ''community_pillar'' then referralCount us userId \<ge> 3
      else if key = ''lucky_winner'' then js_gt (wins userData) 0
      else False)"

text \<open>
  The loop over \<open>Object.entries(ACHIEVEMENTS)\<close>, the same in
  \<open>checkAndAssignAchievements\<close> and \<open>fixUserAchievements\<close>: \<open>keys\<close> are the
  keys of \<open>ACHIEVEMENTS\<close> (of \<open>config.js\<close>, a parameter here), \<open>us\<close> is
  \<open>db.users\<close>, \<open>new\<close> collects what is granted. The loop writes only the
  \<open>achievements\<close> field, which no case of the switch reads.
\<close>

fun achievementLoop ::
  "string list \<Rightarrow> string \<Rightarrow> (string \<times> user) list \<Rightarrow> user \<Rightarrow> string list \<Rightarrow> user \<times> string list" where
  "achievementLoop [] userId us userData new = (userData, new)"
| "achievementLoop (key # keys) userId us userData new =
     (if key \<in> set (achievements userData) then achievementLoop keys userId us userData new
      else if earned key userId userData us
        then achievementLoop keys userId us
               (userData\<lparr>achievements := achievements userData @ [key]\<rparr>) (new @ [key])
        else achievementLoop keys userId us userData new)"

definition checkAndAssignAchievements ::
  "string list \<Rightarrow> string \<Rightarrow> user \<Rightarrow> (string \<times> user) list \<Rightarrow> user \<times> string list" where
  "checkAndAssignAchievements keys memberUserId userData us =
     achievementLoop keys memberUserId us userData []"

text \<open>
  \<open>fixUserAchievements\<close>: \<open>None\<close> is the \<open>TypeError\<close> of reading
  \<open>achievements\<close> of a user that does not exist (both callers pass an existing id).
\<close>

definition fixUserAchievements :: "string list \<Rightarrow> database \<Rightarrow> string \<Rightarrow> (database \<times> nat) option" where
  "fixUserAchievements keys db userId =
     (case objGet (users db) userId of
        None \<Rightarrow> None
      | Some userData \<Rightarrow>
          let (userData', new) = achievementLoop keys userId (users db) userData []
          in Some (db\<lparr>users := objSet userId userData' (users db)\<rparr>, length new))"

text \<open>
  \<open>handleFixAchievements\<close>: one user when \<open>targetUser\<close> is given, otherwise
  every user with \<open>totalDonated > 0\<close>. The result is the database, \<open>fixedCount\<close>
  and \<open>usersProcessed\<close>; \<open>None\<close> is the \<open>catch\<close> branch.
\<close>

fun fixAllLoop ::
  "string list \<Rightarrow> (string \<times> user) list \<Rightarrow> database \<Rightarrow> nat \<Rightarrow> nat \<Rightarrow> (database \<times> nat \<times> nat) option" where
  "fixAllLoop keys [] db fixedCount usersProcessed = Some (db, fixedCount, usersProcessed)"
| "fixAllLoop keys ((userId, userData) # rest) db fixedCount usersProcessed =
     (if totalDonated userData > 0
      then (case fixUserAchievements keys db userId of
              None \<Rightarrow> None
            | Some (db', fixed) \<Rightarrow> fixAllLoop keys rest db' (fixedCount + fixed) (usersProcessed + 1))
      else fixAllLoop keys rest db fixedCount usersProcessed)"

definition handleFixAchievements ::
  "string list \<Rightarrow> string option \<Rightarrow> database \<Rightarrow> (database \<times> nat \<times> nat) option" where
  "handleFixAchievements keys targetUser db =
     (case targetUser of
        Some userId \<Rightarrow>
          (case objGet (users db) userId of
             None \<Rightarrow> Some (db, 0, 0)
           | Some u \<Rightarrow>
               (case fixUserAchievements keys db userId of
                  None \<Rightarrow> None
                | Some (db', fixed) \<Rightarrow> Some (db', fixed, 1)))
      | None \<Rightarrow> fixAllLoop keys (users db) db 0 0)"

lemma earned_achievements_irrelevant:
  "earned key userId (userData\<lparr>achievements := a\<rparr>) us = earned key userId userData us"
  by (simp add: earned_def)

lemma achievementLoop_appends:
  assumes "achievementLoop keys userId us u new = (u', new')" "distinct keys"
  shows "\<exists>added. achievements u' = achievements u @ added \<and> new' = new @ added
           \<and> u' = u\<lparr>achievements := achievements u @ added\<rparr>
           \<and> distinct added \<and> set added \<subseteq> set keys \<and> set added \<inter> set (achievements u) = {}
           \<and> (\<forall>k \<in> set keys. k \<notin> set (achievements u') \<longrightarrow> \<not> earned k userId u us)"
  using assms
proof (induction keys arbitrary: u new)
  case Nil
  then show ?case by auto
next
  case (Cons key keys)
  from Cons.prems(2) have dk: "distinct keys" and nk: "key \<notin> set keys" by simp_all
  show ?case
  proof (cases "key \<in> set (achievements u)")
    case True
    with Cons.prems(1) have run: "achievementLoop keys userId us u new = (u', new')" by simp
    from Cons.IH [OF run dk] obtain added where a:
      "achievements u' = achievements u @ added" "new' = new @ added"
      "u' = u\<lparr>achievements := achievements u @ added\<rparr>"
      "distinct added" "set added \<subseteq> set keys" "set added \<inter> set (achievements u) = {}"
      "\<forall>k \<in> set keys. k \<notin> set (achievements u') \<longrightarrow> \<not> earned k userId u us"
      by blast
    have "\<forall>k \<in> set (key # keys). k \<notin> set (achievements u') \<longrightarrow> \<not> earned k userId u us"
      using a(1,7) True by auto
    with a show ?thesis by (intro exI [of _ added]) auto
  next
    case False
    show ?thesis
    proof (cases "earned key userId u us")
      case True
      let ?u1 = "u\<lparr>achievements := achievements u @ [key]\<rparr>"
      from Cons.prems(1) False True
      have run: "achievementLoop keys userId us ?u1 (new @ [key]) = (u', new')" by simp
      from Cons.IH [OF run dk] obtain added where a:
        "achievements u' = achievements ?u1 @ added" "new' = (new @ [key]) @ added"
        "u' = ?u1\<lparr>achievements := achievements ?u1 @ added\<rparr>"
        "distinct added" "set added \<subseteq> set keys" "set added \<inter> set (achievements ?u1) = {}"
        "\<forall>k \<in> set keys. k \<notin> set (achievements u') \<longrightarrow> \<not> earned k userId ?u1 us"
        by blast
      have 1: "achievements u' = achievements u @ (key # added)" using a(1) by simp
      have 2: "new' = new @ (key # added)" using a(2) by simp
      have 3: "u' = u\<lparr>achievements := achievements u @ (key # added)\<rparr>" using a(3) by simp
      have 4: "distinct (key # added)" using a(4,5) nk by auto
      have 5: "set (key # added) \<subseteq> set (key # keys)" using a(5) by auto
      have 6: "set (key # added) \<inter> set (achievements u) = {}" using a(6) False by auto
      have 7: "\<forall>k \<in> set (key # keys). k \<notin> set (achievements u') \<longrightarrow> \<not> earned k userId u us"
        using a(7) 1 by (auto simp: earned_achievements_irrelevant)
      from 1 2 3 4 5 6 7 show ?thesis by blast
    next
      case nearned: False
      with Cons.prems(1) False have run: "achievementLoop keys userId us u new = (u', new')" by simp
      from Cons.IH [OF run dk] obtain added where a:
        "achievements u' = achievements u @ added" "new' = new @ added"
        "u' = u\<lparr>achievements := achievements u @ added\<rparr>"
        "distinct added" "set added \<subseteq> set keys" "set added \<inter> set (achievements u) = {}"
        "\<forall>k \<in> set keys. k \<notin> set (achievements u') \<longrightarrow> \<not> earned k userId u us"
        by blast
      have "\<forall>k \<in> set (key # keys). k \<notin> set (achievements u') \<longrightarrow> \<not> earned k userId u us"
        using a(7) nearned by auto
      with a show ?thesis by (intro exI [of _ added]) auto
    qed
  qed
qed

lemma achievementLoop_stable:
  assumes "\<forall>k \<in> set keys. k \<notin> set (achievements u) \<longrightarrow> \<not> earned k userId u us"
  shows "achievementLoop keys userId us u new = (u, new)"
  using assms by (induction keys) auto

text \<open>
  Two notions for the proofs: the user table with every \<open>achievements\<close> field
  blanked (what the switch can read of the other users), and a user for whom the loop has
  nothing left to grant.
\<close>

definition withoutAchievements :: "(string \<times> user) list \<Rightarrow> (string \<times> user) list" where
  "withoutAchievements us = map (\<lambda>(k, u). (k, u\<lparr>achievements := []\<rparr>)) us"

definition saturated :: "string list \<Rightarrow> (string \<times> user) list \<Rightarrow> string \<Rightarrow> bool" where
  "saturated keys us userId =
     (case objGet us userId of
        None \<Rightarrow> True
      | Some u \<Rightarrow> (\<forall>k \<in> set keys. k \<notin> set (achievements u) \<longrightarrow> \<not> earned k userId u us))"

lemma objSet_same: "objGet ps k = Some v \<Longrightarrow> objSet k v ps = ps"
  by (induction ps) (auto split: if_splits)

lemma withoutAchievements_objSet:
  "objGet us userId = Some u \<Longrightarrow>
   withoutAchievements (objSet userId (u\<lparr>achievements := a\<rparr>) us) = withoutAchievements us"
  by (induction us) (auto simp: withoutAchievements_def split: if_splits)

lemma withoutAchievements_keys:
  "map fst (withoutAchievements us) = map fst us"
  by (induction us) (auto simp: withoutAchievements_def)

lemma withoutAchievements_objGet:
  "objGet (withoutAchievements us) k = map_option (\<lambda>u. u\<lparr>achievements := []\<rparr>) (objGet us k)"
  by (induction us) (auto simp: withoutAchievements_def)

lemma referralCount_withoutAchievements:
  "referralCount (withoutAchievements us) x = referralCount us x"
  by (induction us) (auto simp: withoutAchievements_def referralCount_def)

lemma earned_cong:
  assumes "withoutAchievements us = withoutAchievements us'"
  shows "earned k userId u us = earned k userId u us'"
proof -
  have "referralCount us userId = referralCount us' userId"
    using referralCount_withoutAchievements [of us userId]
      referralCount_withoutAchievements [of us' userId] assms by simp
  then show ?thesis by (simp add: earned_def)
qed

lemma saturated_cong:
  assumes "withoutAchievements us = withoutAchievements us'" "objGet us userId = objGet us' userId"
  shows "saturated keys us userId = saturated keys us' userId"
  using assms earned_cong [OF assms(1)] by (simp add: saturated_def split: option.splits)

lemma fixUserAchievements_run:
  assumes "objGet (users db) userId = Some u" "distinct keys"
  shows "\<exists>added. fixUserAchievements keys db userId =
            Some (db\<lparr>users := objSet userId (u\<lparr>achievements := achievements u @ added\<rparr>) (users db)\<rparr>,
                  length added)
          \<and> distinct added \<and> set added \<inter> set (achievements u) = {}
          \<and> (\<forall>k \<in> set keys. k \<notin> set (achievements u @ added) \<longrightarrow> \<not> earned k userId u (users db))"
proof -
  obtain u' new where run: "achievementLoop keys userId (users db) u [] = (u', new)"
    by (cases "achievementLoop keys userId (users db) u []")
  from achievementLoop_appends [OF run assms(2)] obtain added where a:
    "achievements u' = achievements u @ added" "new = [] @ added"
    "u' = u\<lparr>achievements := achievements u @ added\<rparr>"
    "distinct added" "set added \<inter> set (achievements u) = {}"
    "\<forall>k \<in> set keys. k \<notin> set (achievements u') \<longrightarrow> \<not> earned k userId u (users db)"
    by blast
  have "fixUserAchievements keys db userId =
            Some (db\<lparr>users := objSet userId (u\<lparr>achievements := achievements u @ added\<rparr>) (users db)\<rparr>,
                  length added)"
    using assms(1) run a(2,3) by (simp add: fixUserAchievements_def)
  with a show ?thesis by auto
qed

lemma fixUserAchievements_saturated:
  assumes "objGet (users db) userId = Some u" "saturated keys (users db) userId"
  shows "fixUserAchievements keys db userId = Some (db, 0)"
proof -
  from assms have "\<forall>k \<in> set keys. k \<notin> set (achievements u) \<longrightarrow> \<not> earned k userId u (users db)"
    by (simp add: saturated_def)
  from achievementLoop_stable [OF this, of "[]"] assms(1) show ?thesis
    by (simp add: fixUserAchievements_def objSet_same)
qed

lemma objGet_member: "(k, v) \<in> set ps \<Longrightarrow> objGet ps k \<noteq> None"
  by (induction ps) auto

lemma saturated_after_fix:
  assumes u: "objGet us userId = Some u"
    and sat: "\<forall>k \<in> set keys. k \<notin> set (achievements u @ added) \<longrightarrow> \<not> earned k userId u us"
  shows "saturated keys (objSet userId (u\<lparr>achievements := achievements u @ added\<rparr>) us) userId"
proof -
  let ?us' = "objSet userId (u\<lparr>achievements := achievements u @ added\<rparr>) us"
  have w: "withoutAchievements ?us' = withoutAchievements us"
    using withoutAchievements_objSet [OF u] .
  show ?thesis
    unfolding saturated_def
    using sat earned_cong [OF w]
    by (simp add: objGet_objSet earned_achievements_irrelevant)
qed

lemma saturated_other:
  assumes u: "objGet us userId = Some u" and ne: "other \<noteq> userId"
    and sat: "saturated keys us other"
  shows "saturated keys (objSet userId (u\<lparr>achievements := a\<rparr>) us) other"
proof -
  have w: "withoutAchievements (objSet userId (u\<lparr>achievements := a\<rparr>) us) = withoutAchievements us"
    using withoutAchievements_objSet [OF u] .
  have g: "objGet (objSet userId (u\<lparr>achievements := a\<rparr>) us) other = objGet us other"
    using ne by (simp add: objGet_objSet)
  from saturated_cong [OF w g] sat show ?thesis by simp
qed

lemma fixAllLoop_run:
  assumes "distinct keys" "\<forall>(userId, u) \<in> set rest. objGet (users db) userId \<noteq> None"
  shows "\<exists>db' n. fixAllLoop keys rest db f pr =
             Some (db', f + n, pr + length (filter (\<lambda>(userId, u). totalDonated u > 0) rest))
          \<and> withoutAchievements (users db') = withoutAchievements (users db)
          \<and> (\<forall>userId. saturated keys (users db) userId \<longrightarrow> saturated keys (users db') userId)
          \<and> (\<forall>(userId, u) \<in> set rest. totalDonated u > 0 \<longrightarrow> saturated keys (users db') userId)"
  using assms(2)
proof (induction rest arbitrary: db f pr)
  case Nil
  have "fixAllLoop keys [] db f pr = Some (db, f + 0, pr + 0)" by simp
  then show ?case by auto
next
  case (Cons p rest)
  obtain userId ud where p: "p = (userId, ud)" by (cases p)
  from Cons.prems p obtain u where u: "objGet (users db) userId = Some u" by auto
  from Cons.prems have restOk: "\<forall>(userId, u) \<in> set rest. objGet (users db) userId \<noteq> None" by simp
  show ?case
  proof (cases "totalDonated ud > 0")
    case False
    from Cons.IH [OF restOk, of f pr] obtain db' n where r:
      "fixAllLoop keys rest db f pr =
         Some (db', f + n, pr + length (filter (\<lambda>(userId, u). totalDonated u > 0) rest))"
      "withoutAchievements (users db') = withoutAchievements (users db)"
      "\<forall>userId. saturated keys (users db) userId \<longrightarrow> saturated keys (users db') userId"
      "\<forall>(userId, u) \<in> set rest. totalDonated u > 0 \<longrightarrow> saturated keys (users db') userId"
      by blast
    have "fixAllLoop keys (p # rest) db f pr =
         Some (db', f + n, pr + length (filter (\<lambda>(userId, u). totalDonated u > 0) (p # rest)))"
      using r(1) False p by simp
    moreover have "\<forall>(userId, u) \<in> set (p # rest). totalDonated u > 0 \<longrightarrow> saturated keys (users db') userId"
      using r(4) False p by simp
    ultimately show ?thesis using r(2,3) by blast
  next
    case True
    from fixUserAchievements_run [OF u assms(1)] obtain added where fx:
      "fixUserAchievements keys db userId =
         Some (db\<lparr>users := objSet userId (u\<lparr>achievements := achievements u @ added\<rparr>) (users db)\<rparr>,
               length added)"
      "\<forall>k \<in> set keys. k \<notin> set (achievements u @ added) \<longrightarrow> \<not> earned k userId u (users db)"
      by blast
    define db1 where
      "db1 = db\<lparr>users := objSet userId (u\<lparr>achievements := achievements u @ added\<rparr>) (users db)\<rparr>"
    have us1: "users db1 = objSet userId (u\<lparr>achievements := achievements u @ added\<rparr>) (users db)"
      by (simp add: db1_def)
    have w1: "withoutAchievements (users db1) = withoutAchievements (users db)"
      unfolding us1 using withoutAchievements_objSet [OF u] .
    have sat1: "saturated keys (users db1) userId"
      unfolding us1 using saturated_after_fix [OF u fx(2)] .
    have keep1: "\<forall>other. saturated keys (users db) other \<longrightarrow> saturated keys (users db1) other"
    proof (intro allI impI)
      fix other assume s: "saturated keys (users db) other"
      show "saturated keys (users db1) other"
      proof (cases "other = userId")
        case True
        with sat1 show ?thesis by simp
      next
        case False
        from saturated_other [OF u False s] show ?thesis unfolding us1 .
      qed
    qed
    have restOk1: "\<forall>(userId, u) \<in> set rest. objGet (users db1) userId \<noteq> None"
      using restOk unfolding us1 by (auto simp: objGet_objSet)
    from Cons.IH [OF restOk1, of "f + length added" "pr + 1"] obtain db' n where r:
      "fixAllLoop keys rest db1 (f + length added) (pr + 1) =
         Some (db', f + length added + n,
               pr + 1 + length (filter (\<lambda>(userId, u). totalDonated u > 0) rest))"
      "withoutAchievements (users db') = withoutAchievements (users db1)"
      "\<forall>userId. saturated keys (users db1) userId \<longrightarrow> saturated keys (users db') userId"
      "\<forall>(userId, u) \<in> set rest. totalDonated u > 0 \<longrightarrow> saturated keys (users db') userId"
      by blast
    have "fixAllLoop keys (p # rest) db f pr =
         Some (db', f + (length added + n),
               pr + length (filter (\<lambda>(userId, u). totalDonated u > 0) (p # rest)))"
      using r(1) True p fx(1) by (simp add: db1_def add.assoc)
    moreover have "withoutAchievements (users db') = withoutAchievements (users db)"
      using r(2) w1 by simp
    moreover have "\<forall>userId. saturated keys (users db) userId \<longrightarrow> saturated keys (users db') userId"
      using r(3) keep1 by blast
    moreover have "\<forall>(userId, u) \<in> set (p # rest). totalDonated u > 0 \<longrightarrow> saturated keys (users db') userId"
      using r(3,4) sat1 p by auto
    ultimately show ?thesis by blast
  qed
qed

lemma fixAllLoop_noop:
  assumes "\<forall>(userId, u) \<in> set rest. objGet (users db) userId \<noteq> None \<and>
             (totalDonated u > 0 \<longrightarrow> saturated keys (users db) userId)"
  shows "fixAllLoop keys rest db f pr =
           Some (db, f, pr + length (filter (\<lambda>(userId, u). totalDonated u > 0) rest))"
  using assms
proof (induction rest arbitrary: f pr)
  case Nil
  show ?case by simp
next
  case (Cons p rest)
  obtain userId ud where p: "p = (userId, ud)" by (cases p)
  from Cons.prems have restOk: "\<forall>(userId, u) \<in> set rest. objGet (users db) userId \<noteq> None \<and>
             (totalDonated u > 0 \<longrightarrow> saturated keys (users db) userId)" by simp
  show ?case
  proof (cases "totalDonated ud > 0")
    case False
    with Cons.IH [OF restOk, of f pr] p show ?thesis by simp
  next
    case True
    with Cons.prems p obtain u where u: "objGet (users db) userId = Some u"
      and s: "saturated keys (users db) userId" by auto
    from fixUserAchievements_saturated [OF u s] Cons.IH [OF restOk, of f "pr + 1"] True p
    show ?thesis by simp
  qed
qed

lemma donors_withoutAchievements:
  "length (filter (\<lambda>(userId, u). totalDonated u > 0) (withoutAchievements us)) =
   length (filter (\<lambda>(userId, u). totalDonated u > 0) us)"
  by (induction us) (auto simp: withoutAchievements_def)

lemma member_withoutAchievements:
  assumes "(userId, u1) \<in> set us1" "withoutAchievements us1 = withoutAchievements us"
  shows "\<exists>u. (userId, u) \<in> set us \<and> totalDonated u = totalDonated u1"
proof -
  from assms(1) have "(userId, u1\<lparr>achievements := []\<rparr>) \<in> set (withoutAchievements us1)"
    unfolding withoutAchievements_def by force
  with assms(2) have "(userId, u1\<lparr>achievements := []\<rparr>) \<in> set (withoutAchievements us)" by simp
  then obtain u where u: "(userId, u) \<in> set us" "u\<lparr>achievements := []\<rparr> = u1\<lparr>achievements := []\<rparr>"
    unfolding withoutAchievements_def by auto
  from arg_cong [OF u(2), of totalDonated] have "totalDonated u = totalDonated u1" by simp
  with u(1) show ?thesis by blast
qed

lemma handleFixAchievements_twice:
  assumes "distinct keys"
  shows "\<exists>db1 n p. handleFixAchievements keys None db = Some (db1, n, p)
            \<and> handleFixAchievements keys None db1 = Some (db1, 0, p)"
proof -
  have ok: "\<forall>(userId, u) \<in> set (users db). objGet (users db) userId \<noteq> None"
    using objGet_member by fastforce
  from fixAllLoop_run [OF assms ok, of 0 0] obtain db1 n where r:
    "fixAllLoop keys (users db) db 0 0 =
       Some (db1, 0 + n, 0 + length (filter (\<lambda>(userId, u). totalDonated u > 0) (users db)))"
    "withoutAchievements (users db1) = withoutAchievements (users db)"
    "\<forall>(userId, u) \<in> set (users db). totalDonated u > 0 \<longrightarrow> saturated keys (users db1) userId"
    by blast
  have second: "\<forall>(userId, u) \<in> set (users db1). objGet (users db1) userId \<noteq> None \<and>
             (totalDonated u > 0 \<longrightarrow> saturated keys (users db1) userId)"
  proof (intro ballI, clarify, intro conjI impI)
    fix userId u1 assume m: "(userId, u1) \<in> set (users db1)"
    from objGet_member [OF m] show "objGet (users db1) userId \<noteq> None" .
    assume pos: "totalDonated u1 > 0"
    from member_withoutAchievements [OF m r(2)] obtain u where
      "(userId, u) \<in> set (users db)" "totalDonated u = totalDonated u1" by blast
    with r(3) pos show "saturated keys (users db1) userId" by auto
  qed
  have cnt: "length (filter (\<lambda>(userId, u). totalDonated u > 0) (users db1)) =
             length (filter (\<lambda>(userId, u). totalDonated u > 0) (users db))"
    using donors_withoutAchievements [of "users db1"] donors_withoutAchievements [of "users db"] r(2)
    by simp
  from fixAllLoop_noop [OF second, of 0 0] cnt r(1) show ?thesis
    by (simp add: handleFixAchievements_def)
qed

text \<open>No user holds an achievement twice.\<close>

definition noDuplicates :: "(string \<times> user) list \<Rightarrow> bool" where
  "noDuplicates us = list_all (\<lambda>(userId, u). distinct (achievements u)) us"

lemma noDuplicates_objSet:
  "noDuplicates us \<Longrightarrow> distinct (achievements u) \<Longrightarrow> noDuplicates (objSet userId u us)"
  by (induction us) (auto simp: noDuplicates_def)

lemma noDuplicates_objGet:
  "noDuplicates us \<Longrightarrow> objGet us userId = Some u \<Longrightarrow> distinct (achievements u)"
  by (induction us) (auto simp: noDuplicates_def split: if_splits)

lemma fixUserAchievements_noDuplicates:
  assumes "fixUserAchievements keys d userId = Some (d', n)" "distinct keys" "noDuplicates (users d)"
  shows "noDuplicates (users d')"
proof -
  from assms(1) obtain u where u: "objGet (users d) userId = Some u"
    by (auto simp: fixUserAchievements_def split: option.splits)
  from fixUserAchievements_run [OF u assms(2)] assms(1) obtain added where a:
    "d' = d\<lparr>users := objSet userId (u\<lparr>achievements := achievements u @ added\<rparr>) (users d)\<rparr>"
    "distinct added" "set added \<inter> set (achievements u) = {}"
    by auto
  from noDuplicates_objGet [OF assms(3) u] a(2,3)
  have "distinct (achievements (u\<lparr>achievements := achievements u @ added\<rparr>))" by auto
  from noDuplicates_objSet [OF assms(3) this] a(1) show ?thesis by simp
qed

lemma fixAllLoop_noDuplicates:
  assumes "fixAllLoop keys rest d f pr = Some (d', n, p)" "distinct keys" "noDuplicates (users d)"
  shows "noDuplicates (users d')"
  using assms(1,3)
proof (induction rest arbitrary: d f pr)
  case Nil
  then show ?case by simp
next
  case (Cons x rest)
  obtain userId ud where x: "x = (userId, ud)" by (cases x)
  show ?case
  proof (cases "totalDonated ud > 0")
    case False
    with Cons.prems x have "fixAllLoop keys rest d f pr = Some (d', n, p)" by simp
    from Cons.IH [OF this Cons.prems(2)] show ?thesis .
  next
    case True
    with Cons.prems(1) x obtain d1 k where
      fx: "fixUserAchievements keys d userId = Some (d1, k)"
      and run: "fixAllLoop keys rest d1 (f + k) (pr + 1) = Some (d', n, p)"
      by (auto split: option.splits)
    from fixUserAchievements_noDuplicates [OF fx assms(2) Cons.prems(2)]
    have "noDuplicates (users d1)" .
    from Cons.IH [OF run this] show ?thesis .
  qed
qed

text \<open>The keys the switch has a case for.\<close>

definition knownAchievements :: "string list" where
  "knownAchievements =
     [''first_steps'', ''generous_donor'', ''big_spender'', ''whale'',
      ''streak_master'', ''community_pillar'', ''lucky_winner'']"

section \<open>Claim C9: achievement grants are idempotent\<close>

text \<open>
  Claim C9. For distinct keys of \<open>ACHIEVEMENTS\<close> (the keys of an object):
  \<open>checkAndAssignAchievements\<close> only appends keys the user did not hold, each once,
  so a duplicate-free achievement list stays duplicate-free, and evaluating again grants
  nothing; \<open>fixUserAchievements\<close> keeps every achievement list duplicate-free,
  and run a second time on its own result it grants 0 and changes nothing; the repair
  over all users returns, keeps every achievement list duplicate-free, and a second
  repair on the resulting database grants 0 achievements (to the same number of users)
  and changes nothing.
\<close>

theorem achievements_idempotent:
  assumes "distinct keys"
  shows "(checkAndAssignAchievements keys userId u us = (u', new) \<longrightarrow>
            (\<exists>added. achievements u' = achievements u @ added \<and> new = added \<and> distinct added
                \<and> set added \<inter> set (achievements u) = {})
            \<and> (distinct (achievements u) \<longrightarrow> distinct (achievements u'))
            \<and> checkAndAssignAchievements keys userId u' us = (u', []))
       \<and> (objGet (users db) userId = Some u \<longrightarrow>
            (\<exists>db1 n. fixUserAchievements keys db userId = Some (db1, n)
                \<and> (noDuplicates (users db) \<longrightarrow> noDuplicates (users db1))
                \<and> fixUserAchievements keys db1 userId = Some (db1, 0)))
       \<and> (\<exists>db1 n p. handleFixAchievements keys None db = Some (db1, n, p)
                \<and> (noDuplicates (users db) \<longrightarrow> noDuplicates (users db1))
                \<and> handleFixAchievements keys None db1 = Some (db1, 0, p))"
proof -
  have part1: "(\<exists>added. achievements u' = achievements u @ added \<and> new = added \<and> distinct added
                \<and> set added \<inter> set (achievements u) = {})
            \<and> (distinct (achievements u) \<longrightarrow> distinct (achievements u'))
            \<and> checkAndAssignAchievements keys userId u' us = (u', [])"
    if run: "checkAndAssignAchievements keys userId u us = (u', new)"
  proof -
    from run have loop: "achievementLoop keys userId us u [] = (u', new)"
      by (simp add: checkAndAssignAchievements_def)
    from achievementLoop_appends [OF loop assms] obtain added where a:
      "achievements u' = achievements u @ added" "new = [] @ added"
      "u' = u\<lparr>achievements := achievements u @ added\<rparr>"
      "distinct added" "set added \<inter> set (achievements u) = {}"
      "\<forall>k \<in> set keys. k \<notin> set (achievements u') \<longrightarrow> \<not> earned k userId u us"
      by blast
    from a have 1: "\<exists>added. achievements u' = achievements u @ added \<and> new = added \<and> distinct added
                  \<and> set added \<inter> set (achievements u) = {}"
      by auto
    from a have 2: "distinct (achievements u) \<longrightarrow> distinct (achievements u')" by auto
    have "\<forall>k \<in> set keys. k \<notin> set (achievements u') \<longrightarrow> \<not> earned k userId u' us"
      using a(3,6) by (simp add: earned_achievements_irrelevant)
    from achievementLoop_stable [OF this, of "[]"]
    have 3: "checkAndAssignAchievements keys userId u' us = (u', [])"
      by (simp add: checkAndAssignAchievements_def)
    from 1 2 3 show ?thesis by blast
  qed
  have part2: "\<exists>db1 n. fixUserAchievements keys db userId = Some (db1, n)
                \<and> (noDuplicates (users db) \<longrightarrow> noDuplicates (users db1))
                \<and> fixUserAchievements keys db1 userId = Some (db1, 0)"
    if u: "objGet (users db) userId = Some u"
  proof -
    from fixUserAchievements_run [OF u assms] obtain added where fx:
      "fixUserAchievements keys db userId =
         Some (db\<lparr>users := objSet userId (u\<lparr>achievements := achievements u @ added\<rparr>) (users db)\<rparr>,
               length added)"
      "\<forall>k \<in> set keys. k \<notin> set (achievements u @ added) \<longrightarrow> \<not> earned k userId u (users db)"
      by blast
    define db1 where
      "db1 = db\<lparr>users := objSet userId (u\<lparr>achievements := achievements u @ added\<rparr>) (users db)\<rparr>"
    have g: "objGet (users db1) userId = Some (u\<lparr>achievements := achievements u @ added\<rparr>)"
      by (simp add: db1_def objGet_objSet)
    have s: "saturated keys (users db1) userId"
      using saturated_after_fix [OF u fx(2)] by (simp add: db1_def)
    have nd: "noDuplicates (users db) \<longrightarrow> noDuplicates (users db1)"
      using fixUserAchievements_noDuplicates [OF fx(1) assms] by (simp add: db1_def)
    from fixUserAchievements_saturated [OF g s] fx(1) nd
    show ?thesis unfolding db1_def by blast
  qed
  have part3: "\<exists>db1 n p. handleFixAchievements keys None db = Some (db1, n, p)
                \<and> (noDuplicates (users db) \<longrightarrow> noDuplicates (users db1))
                \<and> handleFixAchievements keys None db1 = Some (db1, 0, p)"
  proof -
    from handleFixAchievements_twice [OF assms, of db] obtain db1 n p where r:
      "handleFixAchievements keys None db = Some (db1, n, p)"
      "handleFixAchievements keys None db1 = Some (db1, 0, p)"
      by blast
    from r(1) have "fixAllLoop keys (users db) db 0 0 = Some (db1, n, p)"
      by (simp add: handleFixAchievements_def)
    from fixAllLoop_noDuplicates [OF this assms]
    have "noDuplicates (users db) \<longrightarrow> noDuplicates (users db1)" by blast
    with r show ?thesis by blast
  qed
  from part1 part2 part3 show ?thesis by blast
qed

text \<open>
  The theorem at a user who has donated 150 USD: two achievements the first time, none
  the second.
\<close>

theorem achievements_idempotent_witness:
  "checkAndAssignAchievements knownAchievements ''u1'' (newUser\<lparr>totalDonated := 150\<rparr>) []
     = (newUser\<lparr>totalDonated := 150, achievements := [''first_steps'', ''generous_donor'']\<rparr>,
        [''first_steps'', ''generous_donor''])
   \<and> checkAndAssignAchievements knownAchievements ''u1''
        (newUser\<lparr>totalDonated := 150, achievements := [''first_steps'', ''generous_donor'']\<rparr>) []
     = (newUser\<lparr>totalDonated := 150, achievements := [''first_steps'', ''generous_donor'']\<rparr>, [])"
proof -
  have d: "distinct knownAchievements" by (simp add: knownAchievements_def)
  have 1: "checkAndAssignAchievements knownAchievements ''u1'' (newUser\<lparr>totalDonated := 150\<rparr>) []
     = (newUser\<lparr>totalDonated := 150, achievements := [''first_steps'', ''generous_donor'']\<rparr>,
        [''first_steps'', ''generous_donor''])"
    by (simp add: checkAndAssignAchievements_def knownAchievements_def earned_def newUser_def
        referralCount_def)
  from achievements_idempotent [OF d, of "''u1''" "newUser\<lparr>totalDonated := 150\<rparr>" "[]"
      "newUser\<lparr>totalDonated := 150, achievements := [''first_steps'', ''generous_donor'']\<rparr>"
      "[''first_steps'', ''generous_donor'']"] 1
  have "checkAndAssignAchievements knownAchievements ''u1''
        (newUser\<lparr>totalDonated := 150, achievements := [''first_steps'', ''generous_donor'']\<rparr>) []
     = (newUser\<lparr>totalDonated := 150, achievements := [''first_steps'', ''generous_donor'']\<rparr>, [])"
    by blast
  with 1 show ?thesis by simp
qed

section \<open>handleTipccDonation\<close>

text \<open>
  What the four regular expressions of the handler extract from a message. The
  expressions are not modelled: their result is the field \<open>tipMatch\<close> of the
  message (\<open>None\<close> when none matches), with \<open>amount\<close> already parsed.
\<close>

record tip =
  sender :: string
  recipient :: string
  amount :: rat
  currency :: string

record message =
  authorId :: string
  authorIsBot :: bool
  guildId :: "string option"
  content :: string
  tipMatch :: "tip option"

text \<open>
  The state a donation can change: the guild's database and the roles of its members.
\<close>

record world =
  db :: database
  guildMembers :: "member list"

text \<open>\<open>toUpperCase\<close>, on ASCII letters.\<close>

definition upperChar :: "char \<Rightarrow> char" where
  "upperChar c =
     (case map_of (zip ''abcdefghijklmnopqrstuvwxyz'' ''ABCDEFGHIJKLMNOPQRSTUVWXYZ'') c of
        None \<Rightarrow> c
      | Some l \<Rightarrow> l)"

definition toUpperCase :: "string \<Rightarrow> string" where
  "toUpperCase s = map upperChar s"

text \<open>
  The sender lookup: by id when the sender is all digits, then by user name, then by
  display name (\<open>includes\<close> on lower-cased names). The guild's member cache is taken
  to hold every member.
\<close>

definition findSender :: "member list \<Rightarrow> string \<Rightarrow> member option" where
  "findSender members senderName =
     (let byId = (if senderName \<noteq> [] \<and> list_all isDigit senderName
                  then find (\<lambda>m. memberId m = senderName) members else None)
      in case byId of
           Some m \<Rightarrow> Some m
         | None \<Rightarrow>
             (case find (\<lambda>m. strIncludes (toLowerCase (username m)) (toLowerCase senderName)) members of
                Some m \<Rightarrow> Some m
              | None \<Rightarrow>
                  find (\<lambda>m. strIncludes (toLowerCase (displayName m)) (toLowerCase senderName)) members))"

definition updateDonationStreak :: "int \<Rightarrow> user \<Rightarrow> user" where
  "updateDonationStreak now userData =
     (let s = userStreaks userData;
          oneDayMs = 24 * 60 * 60 * 1000;
          cur = (if truthy (lastDonation s)
                 then (let timeSinceLastDonation = now - the (lastDonation s)
                       in if timeSinceLastDonation \<le> oneDayMs then current s + 1
                          else if timeSinceLastDonation \<le> 2 * oneDayMs then current s
                          else 1)
                 else 1);
          lng = (if cur > longest s then cur else longest s)
      in userData\<lparr>userStreaks := \<lparr>current = cur, longest = lng, lastDonation = Some now\<rparr>\<rparr>)"

text \<open>
  The handler from "Initialize user data" to the end of the loop over the draws (lines
  2039-2124). The two readings of \<open>Date.now()\<close> are taken to be equal. The notices
  sent to channels are not part of the state.
\<close>

definition processDonation :: "env \<Rightarrow> tip \<Rightarrow> rat \<Rightarrow> member \<Rightarrow> world \<Rightarrow> world" where
  "processDonation e t usdValue senderMember w =
     (let senderId = memberId senderMember;
          d = db w;
          userData0 = (case objGet (users d) senderId of None \<Rightarrow> newUser | Some u \<Rightarrow> u);
          oldTotal = totalDonated userData0;
          userData1 = userData0
            \<lparr>totalDonated := oldTotal + usdValue,
             donations := donations userData0 @
               [\<lparr>d_amount = usdValue, d_currency = currency t, d_originalAmount = amount t,
                 d_timestamp = dateNow e, d_recipient = recipient t\<rparr>]\<rparr>;
          userData2 = updateDonationStreak (dateNow e) userData1;
          roles' = assignDonorRoles (donorRoles (config d)) (memberRoles senderMember)
                     (totalDonated userData2);
          (userData3, newAchievements) =
             checkAndAssignAchievements (ACHIEVEMENTS e) senderId userData2
               (objSet senderId userData2 (users d));
          selectedDrawId = selectedDraw userData3;
          (draws', userData4, entriesAdded) =
             allocate senderId usdValue selectedDrawId (vipRoleId (config d)) roles'
               (donationDraws d) userData3 (Fin 0)
      in w\<lparr>db := d\<lparr>users := objSet senderId userData4 (users d), donationDraws := draws'\<rparr>,
           guildMembers :=
             map (\<lambda>m. if memberId m = senderId then m\<lparr>memberRoles := roles'\<rparr> else m)
               (guildMembers w)\<rparr>)"

text \<open>The handler: every early \<open>return\<close> leaves the state as it was.\<close>

definition handleTipccDonation :: "env \<Rightarrow> message \<Rightarrow> world \<Rightarrow> world" where
  "handleTipccDonation e msg w =
     (if \<not> truthyStr (guildId msg) then w
      else
        case tipMatch msg of
          None \<Rightarrow> w
        | Some t \<Rightarrow>
            let cfg = config (db w) in
            if (case allowedRecipients cfg of None \<Rightarrow> True | Some l \<Rightarrow> l = []) then w
            else if \<not> isAllowedRecipient (the (allowedRecipients cfg)) (recipient t) then w
            else if toUpperCase (currency t) \<notin>
                      set (case acceptedCryptocurrencies cfg of
                             None \<Rightarrow> DEFAULT_ACCEPTED_CRYPTOCURRENCIES e
                           | Some l \<Rightarrow> l)
              then w
            else
              case resolveUsdValue e (content msg) (currency t) (amount t) of
                None \<Rightarrow> w
              | Some usdValue \<Rightarrow>
                  (case findSender (guildMembers w) (sender t) of
                     None \<Rightarrow> w
                   | Some senderMember \<Rightarrow> processDonation e t usdValue senderMember w))"

text \<open>
  The two \<open>execute\<close> functions of the \<open>MessageCreate\<close> event. The first
  (lines 1872-1882) hands every message of the tip.cc bot to the handler above. The
  second (lines 2484-2492), of the other copy of the handler, returns on every message a
  bot wrote before it tests for tip.cc; its handler is a parameter here.
\<close>

definition execute :: "env \<Rightarrow> message \<Rightarrow> world \<Rightarrow> world" where
  "execute e msg w =
     (if authorId msg = ''617037497574359050'' then handleTipccDonation e msg w else w)"

definition executeLegacy :: "(message \<Rightarrow> world \<Rightarrow> world) \<Rightarrow> message \<Rightarrow> world \<Rightarrow> world" where
  "executeLegacy handler msg w =
     (if authorIsBot msg then w
      else if authorId msg = ''617037497574359050'' then handler msg w
      else w)"

lemma executeLegacy_ignores_bots: "authorIsBot msg \<Longrightarrow> executeLegacy handler msg w = w"
  by (simp add: executeLegacy_def)

text \<open>
  \<open>handleBlacklist\<close>, on the database: \<open>userOpt\<close> is the id and name of the
  \<open>user\<close> option.
\<close>

definition handleBlacklist ::
  "string \<Rightarrow> (string \<times> string) option \<Rightarrow> string \<Rightarrow> string \<Rightarrow> int \<Rightarrow> database \<Rightarrow> database" where
  "handleBlacklist action userOpt reason adminId now d =
     (let bl = (case globalBlacklist (config d) of
                  None \<Rightarrow> \<lparr>bl_users = [], bl_roles = []\<rparr>
                | Some b \<Rightarrow> b);
          bl' =
            (if action = ''add_user'' then
               (case userOpt of
                  None \<Rightarrow> bl
                | Some (userId, userName) \<Rightarrow>
                    if list_ex (\<lambda>entry. b_id entry = userId) (bl_users bl) then bl
                    else bl\<lparr>bl_users := bl_users bl @
                           [\<lparr>b_id = userId, b_username = userName, b_reason = reason,
                             b_addedBy = adminId, b_addedAt = now\<rparr>]\<rparr>)
             else if action = ''remove_user'' then
               (case userOpt of
                  None \<Rightarrow> bl
                | Some (userId, userName) \<Rightarrow>
                    bl\<lparr>bl_users :=
                         takeWhile (\<lambda>entry. b_id entry \<noteq> userId) (bl_users bl) @
                         drop 1 (dropWhile (\<lambda>entry. b_id entry \<noteq> userId) (bl_users bl))\<rparr>)
             else bl)
      in d\<lparr>config := (config d)\<lparr>globalBlacklist := Some bl'\<rparr>\<rparr>)"

text \<open>The same state with another value of \<open>config.globalBlacklist\<close>.\<close>

definition withBlacklist :: "blacklist option \<Rightarrow> world \<Rightarrow> world" where
  "withBlacklist bl w = w\<lparr>db := (db w)\<lparr>config := (config (db w))\<lparr>globalBlacklist := bl\<rparr>\<rparr>\<rparr>"

lemma processDonation_blacklist:
  "processDonation e t usdValue m (withBlacklist bl w) = withBlacklist bl (processDonation e t usdValue m w)"
  by (simp add: processDonation_def withBlacklist_def Let_def split: prod.splits)

lemma handleTipccDonation_blacklist:
  "handleTipccDonation e msg (withBlacklist bl w) = withBlacklist bl (handleTipccDonation e msg w)"
proof -
  have c: "allowedRecipients (config (db (withBlacklist bl w))) = allowedRecipients (config (db w))"
    "acceptedCryptocurrencies (config (db (withBlacklist bl w))) = acceptedCryptocurrencies (config (db w))"
    "guildMembers (withBlacklist bl w) = guildMembers w"
    by (simp_all add: withBlacklist_def)
  show ?thesis
    unfolding handleTipccDonation_def Let_def c
    by (simp add: processDonation_blacklist split: option.splits)
qed

lemma price_failure:
  assumes "\<not> truthy (extractPriceFromTipMessage text quantity)"
    and "\<not> positivePrice (fetchCoinGeckoPrice e symbol)"
    and "\<not> positivePrice (fetchCoinPaprikaPrice e symbol)"
    and "\<not> positivePrice (fetchCoinMarketCapPrice e symbol)"
  shows "resolveUsdValue e text symbol quantity = None"
  using assms
  by (simp add: resolveUsdValue_def getCryptoPrice_def tryApis_spec spec_firstPositive_def)

text \<open>
  A tip of 0.5 LTC from alice to bob, in a guild that allows the recipient bob and has
  one draw with a minimum of 5 USD.
\<close>

definition sampleMessage :: message where
  "sampleMessage =
     \<lparr>authorId = ''617037497574359050'',
      authorIsBot = True,
      guildId = Some ''guild_1'',
      content = ''alice sent 0.5 LTC to bob'',
      tipMatch = Some \<lparr>sender = ''alice'', recipient = ''bob'', amount = 1/2, currency = ''LTC''\<rparr>\<rparr>"

definition sampleWorld :: world where
  "sampleWorld =
     \<lparr>db = \<lparr>users = [],
            donationDraws = [(''draw_1'', newDraw 5 None 100 None None)],
            config = emptyConfig\<lparr>allowedRecipients := Some [Str ''bob'']\<rparr>\<rparr>,
      guildMembers =
        [\<lparr>memberId = ''1001'', username = ''alice'', displayName = ''Alice'', memberRoles = []\<rparr>]\<rparr>"

lemma sample_run:
  "handleTipccDonation (sampleEnv (Returned (Some 20)) Threw Threw) sampleMessage sampleWorld =
     sampleWorld\<lparr>db := (db sampleWorld)
       \<lparr>users := [(''1001'', newUser
           \<lparr>totalDonated := 10,
            userEntries := [(''draw_1'', Fin 2)],
            donations := [\<lparr>d_amount = 10, d_currency = ''LTC'', d_originalAmount = 1/2,
                            d_timestamp = 1700000000000, d_recipient = ''bob''\<rparr>],
            achievements := [''first_steps''],
            userStreaks := \<lparr>current = 1, longest = 1, lastDonation = Some 1700000000000\<rparr>\<rparr>)],
        donationDraws := [(''draw_1'', (newDraw 5 None 100 None None)\<lparr>entries := [(''1001'', Fin 2)]\<rparr>)]\<rparr>\<rparr>"
  by (simp add: handleTipccDonation_def processDonation_def sampleMessage_def sampleWorld_def
      sampleEnv_def emptyConfig_def truthyStr_def truthy_def isAllowedRecipient_def
      stripDecoration_def toUpperCase_def upperChar_def resolveUsdValue_def
      extractPriceFromTipMessage_def getCryptoPrice_def findSender_def isDigit_def
      toLowerCase_def lowerChar_def newUser_def updateDonationStreak_def assignDonorRoles_def
      checkAndAssignAchievements_def earned_def referralCount_def entriesToAdd_def newDraw_def
      count_eval double_eval)

text \<open>
  The same tip with an embedded price of \<open>$0.30\<close>, in a guild whose draw has a
  minimum of 0.1: the price is read as the double nearest to 0.3, the double quotient is
  2.9999999999999996, and the sender receives 2 entries.
\<close>

lemma sample_run_cents:
  "donationDraws (db (handleTipccDonation (sampleEnv Threw Threw Threw)
      (sampleMessage\<lparr>content := ''alice sent 1 LTC to bob ($0.30).''\<rparr>)
      (sampleWorld\<lparr>db := (db sampleWorld)
         \<lparr>donationDraws := [(''draw_1'', newDraw double_0_1 None 100 None None)]\<rparr>\<rparr>)))
   = [(''draw_1'', (newDraw double_0_1 None 100 None None)\<lparr>entries := [(''1001'', Fin 2)]\<rparr>)]"
proof -
  have q: "toDouble (double_0_3 / double_0_1) = Dbl (6755399441055743 / 2251799813685248)"
    by (simp add: double_eval double_0_3_def double_0_1_def)
  have f: "\<lfloor>6755399441055743 / 2251799813685248 :: rat\<rfloor> = 2" by (simp add: floor_rat_numeral)
  have c: "\<not> double_0_3 < double_0_1" "double_0_1 \<noteq> 0" "double_0_3 \<noteq> 0" "\<not> 1000000 < double_0_3"
    "0 < double_0_3" "\<not> 100 \<le> double_0_3" "\<not> 500 \<le> double_0_3" "\<not> 1000 \<le> double_0_3"
    by (simp_all add: double_0_3_def double_0_1_def)
  have x: "resolveUsdValue e ''alice sent 1 LTC to bob ($0.30).'' cur a = Some double_0_3" for e cur a
    using c(3) by (simp add: resolveUsdValue_def truthy_def extractPriceFromTipMessage_def parseFloat_def
        priceCapture_def isDigit_def digitsValue_def digitValue_def double_eval double_0_3_def)
  show ?thesis
    by (simp add: handleTipccDonation_def processDonation_def sampleMessage_def sampleWorld_def
      sampleEnv_def emptyConfig_def truthyStr_def truthy_def isAllowedRecipient_def
      stripDecoration_def toUpperCase_def upperChar_def x findSender_def isDigit_def
      toLowerCase_def lowerChar_def newUser_def updateDonationStreak_def assignDonorRoles_def
      checkAndAssignAchievements_def earned_def referralCount_def entriesToAdd_def newDraw_def
      roundInt_small sumEntries_def addCount_def floorEntries_def q f c Let_def)
qed

section \<open>Claim C6: no price, no state change\<close>

text \<open>
  Claim C6. For a message in which a tip is recognised: if the message embeds no price
  (or a price of zero) and none of the three providers returns a positive price for the
  tip's currency, the handler returns the state it was given: the database (every user's
  total, donation history, streaks, achievements and entries, every draw's ledger) and
  the members' roles are unchanged.
\<close>

theorem price_failure_aborts:
  assumes "tipMatch msg = Some t"
    and "\<not> truthy (extractPriceFromTipMessage (content msg) (amount t))"
    and "\<not> positivePrice (fetchCoinGeckoPrice e (currency t))"
    and "\<not> positivePrice (fetchCoinPaprikaPrice e (currency t))"
    and "\<not> positivePrice (fetchCoinMarketCapPrice e (currency t))"
  shows "handleTipccDonation e msg w = w"
  using assms(1) price_failure [OF assms(2-5)]
  by (simp add: handleTipccDonation_def Let_def)

text \<open>
  The theorem at the sample tip with providers that throw, return \<open>null\<close> and return
  0; with a provider that returns 20 the same message does change the state.
\<close>

theorem price_failure_aborts_witness:
  "handleTipccDonation (sampleEnv Threw (Returned None) (Returned (Some 0))) sampleMessage sampleWorld
     = sampleWorld
   \<and> handleTipccDonation (sampleEnv (Returned (Some 20)) Threw Threw) sampleMessage sampleWorld
     \<noteq> sampleWorld"
proof -
  let ?e = "sampleEnv Threw (Returned None) (Returned (Some 0))"
  let ?t = "\<lparr>sender = ''alice'', recipient = ''bob'', amount = 1/2, currency = ''LTC''\<rparr>"
  have m: "tipMatch sampleMessage = Some ?t" by (simp add: sampleMessage_def)
  have x: "\<not> truthy (extractPriceFromTipMessage (content sampleMessage) (amount ?t))"
    by (simp add: sampleMessage_def extractPriceFromTipMessage_def truthy_def)
  have g: "\<not> positivePrice (fetchCoinGeckoPrice ?e (currency ?t))"
    and p: "\<not> positivePrice (fetchCoinPaprikaPrice ?e (currency ?t))"
    and c: "\<not> positivePrice (fetchCoinMarketCapPrice ?e (currency ?t))"
    by (simp_all add: sampleEnv_def positivePrice_def)
  have 1: "handleTipccDonation ?e sampleMessage sampleWorld = sampleWorld"
    using price_failure_aborts [OF m x g p c] .
  have 2: "handleTipccDonation (sampleEnv (Returned (Some 20)) Threw Threw) sampleMessage sampleWorld
     \<noteq> sampleWorld"
  proof
    assume "handleTipccDonation (sampleEnv (Returned (Some 20)) Threw Threw) sampleMessage sampleWorld
      = sampleWorld"
    then have "users (db (handleTipccDonation (sampleEnv (Returned (Some 20)) Threw Threw)
        sampleMessage sampleWorld)) = users (db sampleWorld)"
      by simp
    then show False by (simp add: sample_run) (simp add: sampleWorld_def)
  qed
  from 1 2 show ?thesis by simp
qed

section \<open>Claim C10: the blacklist does not affect donation processing\<close>

text \<open>
  Claim C10. \<open>handleTipccDonation\<close> never reads \<open>config.globalBlacklist\<close>:
  running it on a state with another blacklist gives the same result but for the
  blacklist itself; in particular a donation processed after any \<open>handleBlacklist\<close>
  command makes the same updates as before it.
\<close>

theorem blacklist_noninterference:
  "handleTipccDonation e msg (withBlacklist bl w) = withBlacklist bl (handleTipccDonation e msg w)
   \<and> handleTipccDonation e msg (w\<lparr>db := handleBlacklist action userOpt reason adminId now (db w)\<rparr>)
       = (handleTipccDonation e msg w)
           \<lparr>db := handleBlacklist action userOpt reason adminId now (db (handleTipccDonation e msg w))\<rparr>"
proof -
  have cfg: "config (db (handleTipccDonation e msg w)) = config (db w)"
    by (simp add: handleTipccDonation_def processDonation_def Let_def
        split: option.splits prod.splits)
  have hb: "w'\<lparr>db := handleBlacklist action userOpt reason adminId now (db w')\<rparr> =
        withBlacklist (globalBlacklist (config (handleBlacklist action userOpt reason adminId now (db w')))) w'"
    for w'
    by (simp add: handleBlacklist_def withBlacklist_def Let_def)
  have same: "globalBlacklist (config (handleBlacklist action userOpt reason adminId now d)) =
        globalBlacklist (config (handleBlacklist action userOpt reason adminId now d'))"
    if "config d = config d'" for d d'
    using that by (simp add: handleBlacklist_def Let_def)
  have 1: "handleTipccDonation e msg (withBlacklist bl w) = withBlacklist bl (handleTipccDonation e msg w)"
    by (rule handleTipccDonation_blacklist)
  have 2: "handleTipccDonation e msg (w\<lparr>db := handleBlacklist action userOpt reason adminId now (db w)\<rparr>)
       = (handleTipccDonation e msg w)
           \<lparr>db := handleBlacklist action userOpt reason adminId now (db (handleTipccDonation e msg w))\<rparr>"
    unfolding hb handleTipccDonation_blacklist using same [OF cfg] by simp
  from 1 2 show ?thesis by simp
qed

text \<open>
  The theorem at the sample tip after alice (the sender) has been blacklisted: the sender
  still receives the 2 entries.
\<close>

theorem blacklist_noninterference_witness:
  "donationDraws (db (handleTipccDonation (sampleEnv (Returned (Some 20)) Threw Threw) sampleMessage
      (sampleWorld\<lparr>db := handleBlacklist ''add_user'' (Some (''1001'', ''alice'')) ''spam'' ''admin'' 0
                         (db sampleWorld)\<rparr>)))
     = [(''draw_1'', (newDraw 5 None 100 None None)\<lparr>entries := [(''1001'', Fin 2)]\<rparr>)]
   \<and> list_ex (\<lambda>entry. b_id entry = ''1001'')
        (bl_users (the (globalBlacklist (config
           (handleBlacklist ''add_user'' (Some (''1001'', ''alice'')) ''spam'' ''admin'' 0
              (db sampleWorld))))))"
proof -
  from blacklist_noninterference [of "sampleEnv (Returned (Some 20)) Threw Threw" sampleMessage _
      sampleWorld "''add_user''" "Some (''1001'', ''alice'')" "''spam''" "''admin''" 0]
  have "handleTipccDonation (sampleEnv (Returned (Some 20)) Threw Threw) sampleMessage
      (sampleWorld\<lparr>db := handleBlacklist ''add_user'' (Some (''1001'', ''alice'')) ''spam'' ''admin'' 0
                         (db sampleWorld)\<rparr>)
    = (handleTipccDonation (sampleEnv (Returned (Some 20)) Threw Threw) sampleMessage sampleWorld)
        \<lparr>db := handleBlacklist ''add_user'' (Some (''1001'', ''alice'')) ''spam'' ''admin'' 0
           (db (handleTipccDonation (sampleEnv (Returned (Some 20)) Threw Threw) sampleMessage
              sampleWorld))\<rparr>"
    by blast
  then have 1: "donationDraws (db (handleTipccDonation (sampleEnv (Returned (Some 20)) Threw Threw)
      sampleMessage
      (sampleWorld\<lparr>db := handleBlacklist ''add_user'' (Some (''1001'', ''alice'')) ''spam'' ''admin'' 0
                         (db sampleWorld)\<rparr>)))
     = [(''draw_1'', (newDraw 5 None 100 None None)\<lparr>entries := [(''1001'', Fin 2)]\<rparr>)]"
    by (simp add: sample_run handleBlacklist_def Let_def)
  have 2: "list_ex (\<lambda>entry. b_id entry = ''1001'')
        (bl_users (the (globalBlacklist (config
           (handleBlacklist ''add_user'' (Some (''1001'', ''alice'')) ''spam'' ''admin'' 0
              (db sampleWorld))))))"
    by (simp add: handleBlacklist_def sampleWorld_def emptyConfig_def Let_def)
  from 1 2 show ?thesis by simp
qed

end
